theory Spec2Isabelle
  imports Main "HOL-Library.AList" "HOL-Library.Multiset"
begin

section \<open>Data model (src/reflow/types.ts)\<close>

text \<open>
  Instants are ISO-8601 strings in the source, always read through
  \<^verbatim>\<open>DateTime.fromISO(_, {zone: 'utc'})\<close> and written back with \<^verbatim>\<open>toISO()\<close>.
  They are modelled by the number of milliseconds since 1970-01-01T00:00:00.000Z,
  the value Luxon compares and computes with. Durations that the source holds as
  (possibly fractional) minutes are held as exact milliseconds.
\<close>

type_synonym instant = int

definition HOUR :: int where "HOUR = 3600000"
definition DAY :: int where "DAY = 86400000"
definition MINUTE :: int where "MINUTE = 60000"

record Shift =
  dayOfWeek :: int
  startHour :: int
  endHour :: int

text \<open>The window's \<^verbatim>\<open>startDate\<close>/\<^verbatim>\<open>endDate\<close> carry the prefix \<open>mw\<close>
  to keep them apart from the work order's fields of the same name; the optional
  \<^verbatim>\<open>reason\<close> is informational and left out.\<close>

record MaintenanceWindow =
  mwStartDate :: instant
  mwEndDate :: instant

text \<open>A document \<^verbatim>\<open>{docId, docType, data}\<close> is flattened: \<^verbatim>\<open>docType\<close> is a
  fixed tag and the fields of \<^verbatim>\<open>data\<close> become fields of the record.\<close>

record WorkCenterDocument =
  wcDocId :: string
  name :: string
  shifts :: "Shift list"
  maintenanceWindows :: "MaintenanceWindow list"

record WorkOrderDocument =
  docId :: string
  workOrderNumber :: string
  manufacturingOrderId :: string
  workCenterId :: string
  startDate :: instant
  endDate :: instant
  durationMinutes :: int
  isMaintenance :: bool
  dependsOnWorkOrderIds :: "string list"

text \<open>Every \<^verbatim>\<open>throw new Error(...)\<close> of the source is a constructor; the
  message text is represented by the constructor and its arguments.\<close>

datatype error =
    DependsOnMissing string string
  | CircularDependency
  | CycleDetected
  | WorkOrderNotFound string
  | WorkCenterNotFound string
  | NoShiftFound
  | CouldNotSchedule
  | StackExhausted

section \<open>DateUtils (src/utils/date-utils.ts)\<close>

definition startOfDay :: "instant \<Rightarrow> instant" where
  "startOfDay t = (t div DAY) * DAY"

text \<open>\<^verbatim>\<open>currentDate.plus({ days: 1 }).startOf('day')\<close> in zone UTC.\<close>

definition nextDayStart :: "instant \<Rightarrow> instant" where
  "nextDayStart t = startOfDay (t + DAY)"

text \<open>\<^verbatim>\<open>dt.set({ hour: h, minute: 0, second: 0, millisecond: 0 })\<close>.\<close>

definition setHour :: "instant \<Rightarrow> int \<Rightarrow> instant" where
  "setHour t h = startOfDay t + h * HOUR"

text \<open>Luxon's \<^verbatim>\<open>weekday\<close>: 1 is Monday, 7 is Sunday; day 0 of the epoch was a
  Thursday.\<close>

definition weekday :: "instant \<Rightarrow> int" where
  "weekday t = (t div DAY + 3) mod 7 + 1"

definition hourOf :: "instant \<Rightarrow> int" where
  "hourOf t = (t mod DAY) div HOUR"

definition getShiftForDay :: "int \<Rightarrow> Shift list \<Rightarrow> Shift option" where
  "getShiftForDay luxonWeekday shs =
     (let jsWeekday = (if luxonWeekday = 7 then 0 else luxonWeekday)
      in find (\<lambda>shift. dayOfWeek shift = jsWeekday) shs)"

definition getEffectiveShiftEnd ::
  "instant \<Rightarrow> instant \<Rightarrow> MaintenanceWindow list \<Rightarrow> instant" where
  "getEffectiveShiftEnd shiftStart shiftEnd windows =
     foldl (\<lambda>effectiveEnd window.
              if mwStartDate window < shiftEnd \<and> mwEndDate window > shiftStart
              then (if mwStartDate window > shiftStart \<and> mwStartDate window < effectiveEnd
                    then mwStartDate window else effectiveEnd)
              else effectiveEnd)
           shiftEnd windows"

text \<open>
  The \<^verbatim>\<open>while (remainingMinutes > 0 && daysProcessed < maxDays)\<close> loop of
  \<^verbatim>\<open>calculateEndDate\<close>. The first argument is \<open>maxDays - daysProcessed\<close>; when it
  is 0 the loop has ended with \<open>daysProcessed >= maxDays\<close> and the check after the
  loop throws, whatever remains. The remaining work is in milliseconds.
\<close>

fun calculateEndDate_loop ::
  "nat \<Rightarrow> Shift list \<Rightarrow> MaintenanceWindow list \<Rightarrow> instant \<Rightarrow> int \<Rightarrow> error + instant" where
  "calculateEndDate_loop 0 shs mws currentDate remaining = Inl CouldNotSchedule"
| "calculateEndDate_loop (Suc k) shs mws currentDate remaining =
     (if remaining \<le> 0 then Inr currentDate
      else (case getShiftForDay (weekday currentDate) shs of
              None \<Rightarrow> calculateEndDate_loop k shs mws (nextDayStart currentDate) remaining
            | Some shift \<Rightarrow>
                (let shiftStart = setHour currentDate (startHour shift);
                     shiftEnd = setHour currentDate (endHour shift);
                     workStart = (if currentDate > shiftStart then currentDate else shiftStart)
                 in if workStart \<ge> shiftEnd
                    then calculateEndDate_loop k shs mws (nextDayStart currentDate) remaining
                    else (let effectiveShiftEnd = getEffectiveShiftEnd workStart shiftEnd mws;
                              available = effectiveShiftEnd - workStart
                          in if available \<le> 0
                             then calculateEndDate_loop k shs mws (nextDayStart currentDate) remaining
                             else (let toWork = min remaining available;
                                       remaining' = remaining - toWork
                                   in if remaining' > 0
                                      then calculateEndDate_loop k shs mws
                                             (nextDayStart currentDate) remaining'
                                      else calculateEndDate_loop k shs mws
                                             (workStart + toWork) remaining')))))"

definition calculateEndDate ::
  "instant \<Rightarrow> int \<Rightarrow> Shift list \<Rightarrow> MaintenanceWindow list \<Rightarrow> error + instant" where
  "calculateEndDate start minutes shs mws =
     calculateEndDate_loop 365 shs mws start (minutes * MINUTE)"

definition overlapsMaintenance ::
  "instant \<Rightarrow> instant \<Rightarrow> MaintenanceWindow list \<Rightarrow> bool" where
  "overlapsMaintenance start endD windows =
     list_ex (\<lambda>window. start < mwEndDate window \<and> endD > mwStartDate window) windows"

definition isDuringShift :: "instant \<Rightarrow> Shift list \<Rightarrow> bool" where
  "isDuringShift dt shs =
     (case getShiftForDay (weekday dt) shs of
        None \<Rightarrow> False
      | Some shift \<Rightarrow> hourOf dt \<ge> startHour shift \<and> hourOf dt < endHour shift)"

definition timePeriodsOverlap :: "instant \<Rightarrow> instant \<Rightarrow> instant \<Rightarrow> instant \<Rightarrow> bool" where
  "timePeriodsOverlap s1 e1 s2 e2 \<longleftrightarrow> s1 < e2 \<and> e1 > s2"

text \<open>The \<^verbatim>\<open>for (let i = 0; i < 30; i++)\<close> loop of \<^verbatim>\<open>findNextShiftStart\<close>; the
  first argument is \<open>30 - i\<close>.\<close>

fun findNextShiftStart_loop :: "nat \<Rightarrow> instant \<Rightarrow> Shift list \<Rightarrow> error + instant" where
  "findNextShiftStart_loop 0 currentDate shs = Inl NoShiftFound"
| "findNextShiftStart_loop (Suc k) currentDate shs =
     (case getShiftForDay (weekday currentDate) shs of
        Some shift \<Rightarrow>
          (let shiftStart = setHour currentDate (startHour shift)
           in if shiftStart > currentDate then Inr shiftStart
              else findNextShiftStart_loop k (nextDayStart currentDate) shs)
      | None \<Rightarrow> findNextShiftStart_loop k (nextDayStart currentDate) shs)"

definition findNextShiftStart :: "instant \<Rightarrow> Shift list \<Rightarrow> error + instant" where
  "findNextShiftStart fromDate shs = findNextShiftStart_loop 30 fromDate shs"

definition getEarliestStartTime ::
  "instant list \<Rightarrow> instant \<Rightarrow> Shift list \<Rightarrow> error + instant" where
  "getEarliestStartTime parentEndTimes workCenterAvailableFrom shs =
     (let latestParentEnd =
            foldl (\<lambda>latest current. if current > latest then current else latest)
                  0 parentEndTimes;
          earliestPossible =
            (if workCenterAvailableFrom > latestParentEnd
             then workCenterAvailableFrom else latestParentEnd)
      in case getShiftForDay (weekday earliestPossible) shs of
           None \<Rightarrow> findNextShiftStart earliestPossible shs
         | Some shift \<Rightarrow>
             (let shiftStart = setHour earliestPossible (startHour shift);
                  shiftEnd = setHour earliestPossible (endHour shift)
              in if earliestPossible < shiftStart then Inr shiftStart
                 else if earliestPossible < shiftEnd then Inr earliestPossible
                 else findNextShiftStart earliestPossible shs))"


section \<open>DependencyGraph (src/reflow/dependency-graph.ts)\<close>

text \<open>
  A JavaScript \<^verbatim>\<open>Map\<close> iterates in insertion order and \<^verbatim>\<open>set\<close> on a key that is
  present replaces the value where it stands: an association list with
  \<^const>\<open>AList.update\<close> and \<^const>\<open>map_of\<close>. A \<^verbatim>\<open>Set\<close> of ids is a list without
  repetitions in insertion order.
\<close>

definition setAdd :: "'a \<Rightarrow> 'a list \<Rightarrow> 'a list" where
  "setAdd x xs = (if x \<in> set xs then xs else xs @ [x])"

record DependencyGraph =
  adjacencyList :: "(string \<times> string list) list"
  inDegree :: "(string \<times> int) list"
  workOrders :: "(string \<times> WorkOrderDocument) list"

definition emptyGraph :: DependencyGraph where
  "emptyGraph = \<lparr>adjacencyList = [], inDegree = [], workOrders = []\<rparr>"

text \<open>First loop of \<^verbatim>\<open>buildGraph\<close>: every work order becomes a node.\<close>

definition initNodes :: "WorkOrderDocument list \<Rightarrow> DependencyGraph" where
  "initNodes wos =
     foldl (\<lambda>g workOrder.
              \<lparr>adjacencyList = AList.update (docId workOrder) [] (adjacencyList g),
               inDegree = AList.update (docId workOrder) 0 (inDegree g),
               workOrders = AList.update (docId workOrder) workOrder (workOrders g)\<rparr>)
           emptyGraph wos"

text \<open>Inner loop: one edge per entry of \<^verbatim>\<open>parentIds\<close>, into the parent's set.\<close>

fun addEdges ::
  "string \<Rightarrow> string list \<Rightarrow> (string \<times> string list) list
     \<Rightarrow> error + (string \<times> string list) list" where
  "addEdges childId [] adj = Inr adj"
| "addEdges childId (parentId # parentIds) adj =
     (case map_of adj parentId of
        None \<Rightarrow> Inl (DependsOnMissing childId parentId)
      | Some children \<Rightarrow>
          addEdges childId parentIds (AList.update parentId (setAdd childId children) adj))"

text \<open>Second loop: the in-degree is the length of \<^verbatim>\<open>parentIds\<close>.\<close>

fun buildEdges :: "WorkOrderDocument list \<Rightarrow> DependencyGraph \<Rightarrow> error + DependencyGraph" where
  "buildEdges [] g = Inr g"
| "buildEdges (workOrder # rest) g =
     (let childId = docId workOrder;
          parentIds = dependsOnWorkOrderIds workOrder;
          deg = AList.update childId (int (length parentIds)) (inDegree g)
      in case addEdges childId parentIds (adjacencyList g) of
           Inl e \<Rightarrow> Inl e
         | Inr adj \<Rightarrow> buildEdges rest (g\<lparr>adjacencyList := adj, inDegree := deg\<rparr>))"

text \<open>The constructor \<^verbatim>\<open>new DependencyGraph(workOrders)\<close>.\<close>

definition buildGraph :: "WorkOrderDocument list \<Rightarrow> error + DependencyGraph" where
  "buildGraph wos = buildEdges wos (initNodes wos)"

text \<open>\<^verbatim>\<open>this.adjacencyList.get(nodeId) || new Set()\<close>.\<close>

definition neighborsOf :: "(string \<times> string list) list \<Rightarrow> string \<Rightarrow> string list" where
  "neighborsOf adj nodeId = (case map_of adj nodeId of None \<Rightarrow> [] | Some ns \<Rightarrow> ns)"

text \<open>
  The recursive closure \<^verbatim>\<open>dfs\<close> of \<^verbatim>\<open>hasCycles\<close> with its \<^verbatim>\<open>for\<close> loop over the
  neighbours; the state is the pair of the sets \<^verbatim>\<open>visited\<close> and
  \<^verbatim>\<open>recursionStack\<close>. The first argument bounds the depth of the recursion: the
  result \<open>None\<close> is a call stack that is used up. On \<^verbatim>\<open>return true\<close> the node
  stays on the recursion stack, as in the source.
\<close>

fun dfs ::
  "nat \<Rightarrow> (string \<times> string list) list \<Rightarrow> string \<Rightarrow> string set \<times> string set
     \<Rightarrow> (bool \<times> string set \<times> string set) option"
and dfsNeighbors ::
  "nat \<Rightarrow> (string \<times> string list) list \<Rightarrow> string list \<Rightarrow> string set \<times> string set
     \<Rightarrow> (bool \<times> string set \<times> string set) option" where
  "dfs 0 adj nodeId st = None"
| "dfs (Suc depth) adj nodeId st =
     (case dfsNeighbors depth adj (neighborsOf adj nodeId)
             (insert nodeId (fst st), insert nodeId (snd st)) of
        None \<Rightarrow> None
      | Some (found, st') \<Rightarrow>
          if found then Some (True, st')
          else Some (False, (fst st', snd st' - {nodeId})))"
| "dfsNeighbors depth adj [] st = Some (False, st)"
| "dfsNeighbors depth adj (neighborId # rest) st =
     (if neighborId \<notin> fst st
      then (case dfs depth adj neighborId st of
              None \<Rightarrow> None
            | Some (found, st') \<Rightarrow>
                if found then Some (True, st') else dfsNeighbors depth adj rest st')
      else if neighborId \<in> snd st then Some (True, st)
      else dfsNeighbors depth adj rest st)"

text \<open>The loop \<^verbatim>\<open>for (const nodeId of this.workOrders.keys())\<close>.\<close>

fun hasCycles_loop ::
  "nat \<Rightarrow> (string \<times> string list) list \<Rightarrow> string list \<Rightarrow> string set \<times> string set
     \<Rightarrow> bool option" where
  "hasCycles_loop depth adj [] st = Some False"
| "hasCycles_loop depth adj (nodeId # rest) st =
     (if nodeId \<notin> fst st
      then (case dfs depth adj nodeId st of
              None \<Rightarrow> None
            | Some (found, st') \<Rightarrow>
                if found then Some True else hasCycles_loop depth adj rest st')
      else hasCycles_loop depth adj rest st)"

text \<open>The recursion never nests deeper than the number of nodes, so one frame more
  than there are nodes is a stack that suffices (\<open>hasCycles_returns\<close> below).\<close>

definition hasCycles :: "DependencyGraph \<Rightarrow> bool option" where
  "hasCycles g =
     hasCycles_loop (Suc (length (workOrders g))) (adjacencyList g)
       (map fst (workOrders g)) ({}, {})"

text \<open>
  Inner loop of Kahn's algorithm, over the children of the node just emitted:
  decrement the cloned in-degree and enqueue the child when it reaches 0. A child
  without an in-degree entry cannot occur (children are node ids); JavaScript
  would store \<^verbatim>\<open>NaN\<close>, which never equals 0, and the model leaves the state as
  it is.
\<close>

fun reduceChildren ::
  "string list \<Rightarrow> (string \<times> int) list \<Rightarrow> string list
     \<Rightarrow> (string \<times> int) list \<times> string list" where
  "reduceChildren [] deg queue = (deg, queue)"
| "reduceChildren (childId # rest) deg queue =
     (case map_of deg childId of
        None \<Rightarrow> reduceChildren rest deg queue
      | Some d \<Rightarrow>
          (let newDegree = d - 1;
               deg' = AList.update childId newDegree deg
           in reduceChildren rest deg' (if newDegree = 0 then queue @ [childId] else queue)))"

definition positiveEntries :: "(string \<times> int) list \<Rightarrow> nat" where
  "positiveEntries deg = length (filter (\<lambda>kv. snd kv > 0) deg)"

text \<open>
  The loop \<^verbatim>\<open>while (queue.length > 0)\<close>. \<^verbatim>\<open>this.workOrders.get(nodeId)!\<close> is
  always defined, the queue holding node ids only; the model emits nothing for
  an id that is not a node.
\<close>

function kahnLoop ::
  "DependencyGraph \<Rightarrow> string list \<Rightarrow> (string \<times> int) list \<Rightarrow> WorkOrderDocument list
     \<Rightarrow> WorkOrderDocument list" where
  "kahnLoop g [] deg result = result"
| "kahnLoop g (nodeId # queue) deg result =
     (let result' = (case map_of (workOrders g) nodeId of
                       None \<Rightarrow> result
                     | Some workOrder \<Rightarrow> result @ [workOrder]);
          (deg', queue') = reduceChildren (neighborsOf (adjacencyList g) nodeId) deg queue
      in kahnLoop g queue' deg' result')"
  by pat_completeness auto

lemma positiveEntries_update:
  "map_of deg c = Some d \<Longrightarrow>
   positiveEntries (AList.update c v deg) + (if d > 0 then 1 else 0)
     = positiveEntries deg + (if v > 0 then 1 else 0)"
  by (induction deg) (auto simp: positiveEntries_def)

lemma reduceChildren_measure:
  "reduceChildren cs deg q = (deg', q') \<Longrightarrow>
   length q' + positiveEntries deg' = length q + positiveEntries deg"
proof (induction cs arbitrary: deg q)
  case Nil
  then show ?case by simp
next
  case (Cons c cs)
  show ?case
  proof (cases "map_of deg c")
    case None
    with Cons show ?thesis by simp
  next
    case (Some d)
    let ?deg = "AList.update c (d - 1) deg"
    let ?q = "if d - 1 = 0 then q @ [c] else q"
    from Cons.prems Some have "reduceChildren cs ?deg ?q = (deg', q')"
      by (simp add: Let_def)
    from Cons.IH[OF this]
    have "length q' + positiveEntries deg' = length ?q + positiveEntries ?deg" .
    moreover have "length ?q + positiveEntries ?deg = length q + positiveEntries deg"
      using positiveEntries_update[OF Some, of "d - 1"]
      by (cases "d = 1") (auto split: if_splits)
    ultimately show ?thesis by simp
  qed
qed

text \<open>Each round takes one id off the queue, and an id is enqueued only when its
  in-degree goes from 1 to 0: queue length plus the number of positive in-degrees
  decreases.\<close>

termination kahnLoop
proof (relation "measure (\<lambda>(g, queue, deg, result). length queue + positiveEntries deg)")
  show "wf (measure (\<lambda>(g, queue, deg, result). length queue + positiveEntries deg))"
    by simp
next
  fix g :: DependencyGraph and nodeId queue deg and result :: "WorkOrderDocument list"
    and result' x deg' queue'
  assume "(deg', queue') = x"
    and "x = reduceChildren (neighborsOf (adjacencyList g) nodeId) deg queue"
  then have "reduceChildren (neighborsOf (adjacencyList g) nodeId) deg queue = (deg', queue')"
    by simp
  from reduceChildren_measure[OF this]
  show "((g, queue', deg', result'), (g, nodeId # queue, deg, result))
          \<in> measure (\<lambda>(g, queue, deg, result). length queue + positiveEntries deg)"
    by simp
qed

text \<open>
  \<^verbatim>\<open>topologicalSort\<close>. The text of the first error comes from \<^verbatim>\<open>getCycle\<close>, which
  only formats the message and is not modelled. The queue is seeded from the
  entries of the cloned in-degree map in their order.
\<close>

definition topologicalSort :: "DependencyGraph \<Rightarrow> error + WorkOrderDocument list" where
  "topologicalSort g =
     (case hasCycles g of
        None \<Rightarrow> Inl StackExhausted
      | Some True \<Rightarrow> Inl CircularDependency
      | Some False \<Rightarrow>
          (let inDegreeClone = inDegree g;
               queue = map fst (filter (\<lambda>entry. snd entry = 0) inDegreeClone);
               result = kahnLoop g queue inDegreeClone []
           in if length result \<noteq> length (workOrders g) then Inl CycleDetected
              else Inr result))"

definition getParents :: "DependencyGraph \<Rightarrow> string \<Rightarrow> error + WorkOrderDocument list" where
  "getParents g workOrderId =
     (case map_of (workOrders g) workOrderId of
        None \<Rightarrow> Inl (WorkOrderNotFound workOrderId)
      | Some workOrder \<Rightarrow>
          Inr (List.map_filter (map_of (workOrders g)) (dependsOnWorkOrderIds workOrder)))"

section \<open>ConstraintChecker (src/reflow/constraint-checker.ts)\<close>

datatype ViolationType =
  WORK_CENTER_OVERLAP | DEPENDENCY_NOT_MET | OUTSIDE_SHIFT | DURING_MAINTENANCE

text \<open>Of \<^verbatim>\<open>details\<close> the id of the other work order is kept (\<^verbatim>\<open>conflictsWith\<close>,
  \<^verbatim>\<open>parentId\<close>); the message text is not modelled.\<close>

record ConstraintViolation =
  violationType :: ViolationType
  workOrderId :: string
  otherId :: "string option"

text \<open>\<^verbatim>\<open>new Map(workCenters.map((wc) => [wc.docId, wc]))\<close>.\<close>

definition mkWorkCenterMap ::
  "WorkCenterDocument list \<Rightarrow> (string \<times> WorkCenterDocument) list" where
  "mkWorkCenterMap wcs = foldl (\<lambda>m wc. AList.update (wcDocId wc) wc m) [] wcs"

text \<open>Grouping by work center: a new key gets an empty array, then the order is
  pushed.\<close>

definition groupByWorkCenter ::
  "WorkOrderDocument list \<Rightarrow> (string \<times> WorkOrderDocument list) list" where
  "groupByWorkCenter wos =
     foldl (\<lambda>byWorkCenter wo.
              AList.update (workCenterId wo)
                ((case map_of byWorkCenter (workCenterId wo) of None \<Rightarrow> [] | Some os \<Rightarrow> os) @ [wo])
                byWorkCenter)
           [] wos"

text \<open>The scan \<^verbatim>\<open>for (let i = 0; i < sorted.length - 1; i++)\<close> over neighbours.\<close>

fun scanAdjacent :: "string \<Rightarrow> WorkOrderDocument list \<Rightarrow> ConstraintViolation list" where
  "scanAdjacent wcId (current # next # rest) =
     (if timePeriodsOverlap (startDate current) (endDate current) (startDate next) (endDate next)
      then [\<lparr>violationType = WORK_CENTER_OVERLAP, workOrderId = docId next,
              otherId = Some (docId current)\<rparr>]
      else [])
     @ scanAdjacent wcId (next # rest)"
| "scanAdjacent wcId rest = []"

text \<open>\<^verbatim>\<open>Array.prototype.sort\<close> with the comparator on the start instants is a
  stable sort by that key.\<close>

definition checkWorkCenterConflicts :: "WorkOrderDocument list \<Rightarrow> ConstraintViolation list" where
  "checkWorkCenterConflicts wos =
     concat (map (\<lambda>(wcId, orders). scanAdjacent wcId (sort_key startDate orders))
                 (groupByWorkCenter wos))"

fun checkDependencies_loop ::
  "DependencyGraph \<Rightarrow> WorkOrderDocument list \<Rightarrow> error + ConstraintViolation list" where
  "checkDependencies_loop dag [] = Inr []"
| "checkDependencies_loop dag (workOrder # rest) =
     (case getParents dag (docId workOrder) of
        Inl e \<Rightarrow> Inl e
      | Inr parents \<Rightarrow>
          (case checkDependencies_loop dag rest of
             Inl e \<Rightarrow> Inl e
           | Inr vs \<Rightarrow>
               Inr (map (\<lambda>parent. \<lparr>violationType = DEPENDENCY_NOT_MET,
                                     workOrderId = docId workOrder,
                                     otherId = Some (docId parent)\<rparr>)
                        (filter (\<lambda>parent. endDate parent > startDate workOrder) parents)
                    @ vs)))"

definition checkDependencies :: "WorkOrderDocument list \<Rightarrow> error + ConstraintViolation list" where
  "checkDependencies wos =
     (case buildGraph wos of Inl e \<Rightarrow> Inl e | Inr dag \<Rightarrow> checkDependencies_loop dag wos)"

definition checkShiftBoundaries ::
  "WorkOrderDocument list \<Rightarrow> (string \<times> WorkCenterDocument) list \<Rightarrow> ConstraintViolation list" where
  "checkShiftBoundaries wos workCenterMap =
     concat (map (\<lambda>workOrder.
       (case map_of workCenterMap (workCenterId workOrder) of
          None \<Rightarrow> []
        | Some workCenter \<Rightarrow>
            (if \<not> isDuringShift (startDate workOrder) (shifts workCenter)
             then [\<lparr>violationType = OUTSIDE_SHIFT, workOrderId = docId workOrder,
                     otherId = None\<rparr>] else [])
            @ (if \<not> isDuringShift (endDate workOrder) (shifts workCenter)
               then [\<lparr>violationType = OUTSIDE_SHIFT, workOrderId = docId workOrder,
                       otherId = None\<rparr>] else []))) wos)"

definition checkMaintenanceConflicts ::
  "WorkOrderDocument list \<Rightarrow> (string \<times> WorkCenterDocument) list \<Rightarrow> ConstraintViolation list" where
  "checkMaintenanceConflicts wos workCenterMap =
     concat (map (\<lambda>workOrder.
       (case map_of workCenterMap (workCenterId workOrder) of
          None \<Rightarrow> []
        | Some workCenter \<Rightarrow>
            (if overlapsMaintenance (startDate workOrder) (endDate workOrder)
                  (maintenanceWindows workCenter)
             then [\<lparr>violationType = DURING_MAINTENANCE, workOrderId = docId workOrder,
                     otherId = None\<rparr>] else []))) wos)"

text \<open>\<^verbatim>\<open>validate\<close>: the four passes in order. Only the dependency pass can throw
  (it builds a graph of its own).\<close>

definition validate ::
  "WorkOrderDocument list \<Rightarrow> WorkCenterDocument list \<Rightarrow> error + ConstraintViolation list" where
  "validate wos wcs =
     (let workCenterMap = mkWorkCenterMap wcs;
          overlaps = checkWorkCenterConflicts wos
      in case checkDependencies wos of
           Inl e \<Rightarrow> Inl e
         | Inr deps \<Rightarrow>
             Inr (overlaps @ deps @ checkShiftBoundaries wos workCenterMap
                  @ checkMaintenanceConflicts wos workCenterMap))"

section \<open>ReflowService (src/reflow/reflow-service.ts)\<close>

text \<open>\<^verbatim>\<open>manufacturingOrders\<close> is carried by the input but never read by the
  service, and is left out.\<close>

record ReflowInput =
  inWorkOrders :: "WorkOrderDocument list"
  inWorkCenters :: "WorkCenterDocument list"

datatype ChangeField = StartDateField | EndDateField

text \<open>A change entry without its \<^verbatim>\<open>reason\<close> text; the delay is in milliseconds
  (\<^verbatim>\<open>delayMinutes\<close> times 60000).\<close>

record WorkOrderChange =
  chWorkOrderId :: string
  chWorkOrderNumber :: string
  field :: ChangeField
  oldValue :: instant
  newValue :: instant
  delayMillis :: int

text \<open>An entry of \<^verbatim>\<open>violations\<close> is the message of a constraint violation or the
  message of the failure that ended the reflow.\<close>

datatype ViolationEntry = ConstraintMessage ConstraintViolation | FailureMessage error

text \<open>The result without the \<^verbatim>\<open>explanation\<close> text.\<close>

record ReflowResult =
  updatedWorkOrders :: "WorkOrderDocument list"
  changes :: "WorkOrderChange list"
  isValid :: bool
  violations :: "ViolationEntry list"

text \<open>
  Step 4: the loop over \<^verbatim>\<open>input.workCenters\<close>. \<^verbatim>\<open>DateTime.utc()\<close> is read once
  per work center: \<open>clock i\<close> is the reading for the work center at position \<open>i\<close>.
\<close>

fun initAvailability ::
  "(nat \<Rightarrow> instant) \<Rightarrow> nat \<Rightarrow> WorkCenterDocument list \<Rightarrow> (string \<times> instant) list
     \<Rightarrow> error + (string \<times> instant) list" where
  "initAvailability clock i [] avail = Inr avail"
| "initAvailability clock i (wc # wcs) avail =
     (case findNextShiftStart (clock i) (shifts wc) of
        Inl e \<Rightarrow> Inl e
      | Inr nextShift \<Rightarrow>
          initAvailability clock (Suc i) wcs (AList.update (wcDocId wc) nextShift avail))"

definition changeEntries ::
  "WorkOrderDocument \<Rightarrow> instant \<Rightarrow> instant \<Rightarrow> WorkOrderChange list" where
  "changeEntries workOrder newStartDate newEndDate =
     (if startDate workOrder \<noteq> newStartDate \<or> endDate workOrder \<noteq> newEndDate
      then [\<lparr>chWorkOrderId = docId workOrder,
              chWorkOrderNumber = workOrderNumber workOrder,
              field = StartDateField, oldValue = startDate workOrder,
              newValue = newStartDate,
              delayMillis = newStartDate - startDate workOrder\<rparr>,
            \<lparr>chWorkOrderId = docId workOrder,
              chWorkOrderNumber = workOrderNumber workOrder,
              field = EndDateField, oldValue = endDate workOrder,
              newValue = newEndDate,
              delayMillis = newStartDate - startDate workOrder\<rparr>]
      else [])"

text \<open>The end instant of each parent, taken from its updated copy when the parent
  has been scheduled already and from the parent itself otherwise; the epoch when
  there is no parent.\<close>

definition resolveParentEndTimes ::
  "WorkOrderDocument list \<Rightarrow> WorkOrderDocument list \<Rightarrow> instant list" where
  "resolveParentEndTimes updated parents =
     (let parentEndTimes =
            map (\<lambda>p. case find (\<lambda>wo. docId wo = docId p) updated of
                        Some u \<Rightarrow> endDate u
                      | None \<Rightarrow> endDate p) parents
      in if parentEndTimes = [] then [0] else parentEndTimes)"

text \<open>\<^verbatim>\<open>workCenterAvailability.get(workCenter.docId) || DateTime.utc().toISO()\<close>;
  \<open>now\<close> is the clock reading of the fallback.\<close>

definition availableFrom ::
  "instant \<Rightarrow> (string \<times> instant) list \<Rightarrow> WorkCenterDocument \<Rightarrow> instant" where
  "availableFrom now avail workCenter =
     (case map_of avail (wcDocId workCenter) of Some t \<Rightarrow> t | None \<Rightarrow> now)"

text \<open>
  Step 5: the loop over \<^verbatim>\<open>orderedWorkOrders\<close>. The state is
  \<^verbatim>\<open>updatedWorkOrders\<close>, \<^verbatim>\<open>changes\<close> and \<^verbatim>\<open>workCenterAvailability\<close>.
\<close>

fun scheduleLoop ::
  "instant \<Rightarrow> DependencyGraph \<Rightarrow> (string \<times> WorkCenterDocument) list \<Rightarrow> WorkOrderDocument list
     \<Rightarrow> WorkOrderDocument list \<times> WorkOrderChange list \<times> (string \<times> instant) list
     \<Rightarrow> error + (WorkOrderDocument list \<times> WorkOrderChange list \<times> (string \<times> instant) list)" where
  "scheduleLoop now dag workCenterMap [] st = Inr st"
| "scheduleLoop now dag workCenterMap (workOrder # rest) (updated, chs, avail) =
     (if isMaintenance workOrder
      then scheduleLoop now dag workCenterMap rest (updated @ [workOrder], chs, avail)
      else (case map_of workCenterMap (workCenterId workOrder) of
              None \<Rightarrow> Inl (WorkCenterNotFound (workCenterId workOrder))
            | Some workCenter \<Rightarrow>
         (case getParents dag (docId workOrder) of
            Inl e \<Rightarrow> Inl e
          | Inr parents \<Rightarrow>
         (case getEarliestStartTime (resolveParentEndTimes updated parents)
                 (availableFrom now avail workCenter) (shifts workCenter) of
            Inl e \<Rightarrow> Inl e
          | Inr newStartDate \<Rightarrow>
         (case calculateEndDate newStartDate (durationMinutes workOrder)
                 (shifts workCenter) (maintenanceWindows workCenter) of
            Inl e \<Rightarrow> Inl e
          | Inr newEndDate \<Rightarrow>
              scheduleLoop now dag workCenterMap rest
                (updated @ [workOrder\<lparr>startDate := newStartDate, endDate := newEndDate\<rparr>],
                 chs @ changeEntries workOrder newStartDate newEndDate,
                 AList.update (wcDocId workCenter) newEndDate avail))))))"

text \<open>The body of the \<^verbatim>\<open>try\<close> block; \<open>Inl\<close> is an exception thrown inside it.\<close>

definition reflowBody :: "(nat \<Rightarrow> instant) \<Rightarrow> ReflowInput \<Rightarrow> error + ReflowResult" where
  "reflowBody clock input =
     (case buildGraph (inWorkOrders input) of
        Inl e \<Rightarrow> Inl e
      | Inr dag \<Rightarrow>
     (case hasCycles dag of
        None \<Rightarrow> Inl StackExhausted
      | Some True \<Rightarrow>
          Inr \<lparr>updatedWorkOrders = [], changes = [], isValid = False,
               violations = [FailureMessage CircularDependency]\<rparr>
      | Some False \<Rightarrow>
     (case topologicalSort dag of
        Inl e \<Rightarrow> Inl e
      | Inr orderedWorkOrders \<Rightarrow>
     (case initAvailability clock 0 (inWorkCenters input) [] of
        Inl e \<Rightarrow> Inl e
      | Inr avail \<Rightarrow>
     (case scheduleLoop (clock (length (inWorkCenters input))) dag
             (mkWorkCenterMap (inWorkCenters input)) orderedWorkOrders ([], [], avail) of
        Inl e \<Rightarrow> Inl e
      | Inr (updated, chs, avail') \<Rightarrow>
     (case validate updated (inWorkCenters input) of
        Inl e \<Rightarrow> Inl e
      | Inr vs \<Rightarrow>
          Inr \<lparr>updatedWorkOrders = updated, changes = chs, isValid = (vs = []),
               violations = map ConstraintMessage vs\<rparr>))))))"

text \<open>\<^verbatim>\<open>reflow\<close>: the \<^verbatim>\<open>catch\<close> turns every exception into the invalid, empty
  result that carries its message.\<close>

definition reflow :: "(nat \<Rightarrow> instant) \<Rightarrow> ReflowInput \<Rightarrow> ReflowResult" where
  "reflow clock input =
     (case reflowBody clock input of
        Inl e \<Rightarrow> \<lparr>updatedWorkOrders = [], changes = [], isValid = False,
                   violations = [FailureMessage e]\<rparr>
      | Inr r \<Rightarrow> r)"

section \<open>Specification-level notions and example data\<close>

text \<open>The dependency relation of a list of work orders: an edge from each declared
  parent id to the order that declares it.\<close>

definition dependencyEdges :: "WorkOrderDocument list \<Rightarrow> (string \<times> string) set" where
  "dependencyEdges wos =
     set (concat (map (\<lambda>child. map (\<lambda>parentId. (parentId, docId child))
                                   (dependsOnWorkOrderIds child)) wos))"

text \<open>Monday to Friday, 08:00 to 17:00.\<close>

definition weekdayShifts :: "Shift list" where
  "weekdayShifts = map (\<lambda>d. \<lparr>dayOfWeek = d, startHour = 8, endHour = 17\<rparr>) [1, 2, 3, 4, 5]"

text \<open>2025-01-15T00:00:00.000Z, a Wednesday (day 20103 of the epoch).\<close>

definition wednesday :: instant where
  "wednesday = 1736899200000"

definition mkOrder ::
  "string \<Rightarrow> string \<Rightarrow> instant \<Rightarrow> instant \<Rightarrow> int \<Rightarrow> bool \<Rightarrow> string list \<Rightarrow> WorkOrderDocument" where
  "mkOrder i wc s e d m deps =
     \<lparr>docId = i, workOrderNumber = i, manufacturingOrderId = ''mo-1'', workCenterId = wc,
      startDate = s, endDate = e, durationMinutes = d, isMaintenance = m,
      dependsOnWorkOrderIds = deps\<rparr>"

definition lineA :: WorkCenterDocument where
  "lineA = \<lparr>wcDocId = ''wc-1'', name = ''Line A'', shifts = weekdayShifts,
            maintenanceWindows = []\<rparr>"

text \<open>An acyclic pair in which the child names its parent twice.\<close>

definition duplicatedParent :: "WorkOrderDocument list" where
  "duplicatedParent =
     [mkOrder ''wo-1'' ''wc-1'' (wednesday + 8 * HOUR) (wednesday + 10 * HOUR) 120 False [],
      mkOrder ''wo-2'' ''wc-1'' (wednesday + 10 * HOUR) (wednesday + 13 * HOUR) 180 False
        [''wo-1'', ''wo-1'']]"

text \<open>Two work orders overlap when the half-open intervals between their start and
  end instants do, as \<^verbatim>\<open>timePeriodsOverlap\<close> decides it.\<close>

definition overlapping :: "WorkOrderDocument \<Rightarrow> WorkOrderDocument \<Rightarrow> bool" where
  "overlapping a b \<longleftrightarrow>
     timePeriodsOverlap (startDate a) (endDate a) (startDate b) (endDate b)"


text \<open>Two work orders are free of a resource conflict when one of them is a
  maintenance order, or they are on different work centers, or they do not
  overlap.\<close>

definition conflictFree :: "WorkOrderDocument \<Rightarrow> WorkOrderDocument \<Rightarrow> bool" where
  "conflictFree a b \<longleftrightarrow>
     isMaintenance a \<or> isMaintenance b \<or> workCenterId a \<noteq> workCenterId b
       \<or> \<not> overlapping a b"

text \<open>The chain wo-1, wo-2, wo-3 of the dependency tests, listed out of order, on one
  work center without maintenance windows.\<close>

definition chainInput :: ReflowInput where
  "chainInput =
     \<lparr>inWorkOrders =
        [mkOrder ''wo-3'' ''wc-1'' (wednesday + 13 * HOUR) (wednesday + 16 * HOUR) 180 False
           [''wo-2''],
         mkOrder ''wo-1'' ''wc-1'' (wednesday + 8 * HOUR) (wednesday + 10 * HOUR) 120 False [],
         mkOrder ''wo-2'' ''wc-1'' (wednesday + 10 * HOUR) (wednesday + 13 * HOUR) 180 False
           [''wo-1'']],
      inWorkCenters = [lineA]\<rparr>"

text \<open>The ids of the orders that name \<open>p\<close> as a parent, in the order of the list.\<close>

definition childrenOf :: "WorkOrderDocument list \<Rightarrow> string \<Rightarrow> string list" where
  "childrenOf wos p = map docId (filter (\<lambda>c. p \<in> set (dependsOnWorkOrderIds c)) wos)"

text \<open>The graph that \<^verbatim>\<open>buildGraph\<close> makes of a list with pairwise different ids
  whose parent ids all exist, in closed form (\<open>buildGraph_closed_form\<close> below).\<close>

definition graphOf :: "WorkOrderDocument list \<Rightarrow> DependencyGraph" where
  "graphOf wos =
     \<lparr>adjacencyList = map (\<lambda>w. (docId w, childrenOf wos (docId w))) wos,
      inDegree = map (\<lambda>w. (docId w, int (length (dependsOnWorkOrderIds w)))) wos,
      workOrders = map (\<lambda>w. (docId w, w)) wos\<rparr>"

text \<open>Every parent id that an order of the list names is the id of an order of the
  list.\<close>

definition parentsExist :: "WorkOrderDocument list \<Rightarrow> bool" where
  "parentsExist wos \<longleftrightarrow>
     list_all (\<lambda>w. list_all (\<lambda>p. p \<in> docId ` set wos) (dependsOnWorkOrderIds w)) wos"

text \<open>The graph after the second loop of \<^verbatim>\<open>buildGraph\<close> has handled the orders of
  \<open>pre\<close>.\<close>

definition graphAfter :: "WorkOrderDocument list \<Rightarrow> WorkOrderDocument list \<Rightarrow> DependencyGraph" where
  "graphAfter ws pre =
     \<lparr>adjacencyList = map (\<lambda>w. (docId w, childrenOf pre (docId w))) ws,
      inDegree = map (\<lambda>w. (docId w, if w \<in> set pre
                                      then int (length (dependsOnWorkOrderIds w)) else 0)) ws,
      workOrders = map (\<lambda>w. (docId w, w)) ws\<rparr>"

text \<open>
  The invariant of Kahn's loop on the graph of \<open>wos\<close>: the in-degree entries keep
  their keys; emitted orders and queued ids are nodes, each once; the stored
  in-degree of a node is the length of its parent list less the number of its
  parents emitted so far; a node is emitted or queued exactly when that number
  is 0; and every emitted order comes after all its parents.
\<close>

definition kahnInv ::
  "WorkOrderDocument list \<Rightarrow> string list \<Rightarrow> (string \<times> int) list \<Rightarrow> WorkOrderDocument list
     \<Rightarrow> bool" where
  "kahnInv wos queue deg result \<longleftrightarrow>
     map fst deg = map docId wos
     \<and> set result \<subseteq> set wos
     \<and> set queue \<subseteq> docId ` set wos
     \<and> distinct (map docId result @ queue)
     \<and> (\<forall>c \<in> set wos. map_of deg (docId c)
           = Some (int (length (dependsOnWorkOrderIds c))
                   - int (card (set (dependsOnWorkOrderIds c) \<inter> docId ` set result))))
     \<and> (\<forall>c \<in> set wos. docId c \<in> docId ` set result \<union> set queue
           \<longleftrightarrow> map_of deg (docId c) = Some 0)
     \<and> (\<forall>i < length result.
           set (dependsOnWorkOrderIds (result ! i)) \<subseteq> docId ` set (take i result))"

text \<open>The edges of an adjacency list, from a node to each of its neighbours.\<close>

definition edgesOf :: "(string \<times> string list) list \<Rightarrow> (string \<times> string) set" where
  "edgesOf adj = {(p, c). c \<in> set (neighborsOf adj p)}"

text \<open>A set of finished nodes is in order when no edge leaves it and none of its
  nodes lies on a cycle.\<close>

definition finishedOk :: "(string \<times> string) set \<Rightarrow> string set \<Rightarrow> bool" where
  "finishedOk R B \<longleftrightarrow> R `` B \<subseteq> B \<and> (\<forall>b \<in> B. (b, b) \<notin> R\<^sup>+)"

text \<open>What a call of the depth-first search may rely on: the nodes \<open>N\<close> are finitely
  many and contain every neighbour, the recursion stack is part of the visited
  set, the depth bound covers the nodes not yet visited, and the nodes visited
  and no longer on the stack are in order.\<close>

definition dfsPre ::
  "(string \<times> string list) list \<Rightarrow> string set \<Rightarrow> nat \<Rightarrow> string set \<times> string set \<Rightarrow> bool" where
  "dfsPre adj N depth st \<longleftrightarrow>
     finite N \<and> (\<forall>p. set (neighborsOf adj p) \<subseteq> N) \<and> snd st \<subseteq> fst st
     \<and> card (N - fst st) \<le> depth \<and> finishedOk (edgesOf adj) (fst st - snd st)"

text \<open>What a call returns: it does return; a reported cycle is one of the graph;
  otherwise the stack is as before and the visited set has grown and is in
  order.\<close>

definition dfsPost ::
  "(string \<times> string list) list \<Rightarrow> string set \<times> string set
     \<Rightarrow> (bool \<times> string set \<times> string set) option \<Rightarrow> bool" where
  "dfsPost adj st res \<longleftrightarrow>
     (case res of
        None \<Rightarrow> False
      | Some (found, st') \<Rightarrow>
          fst st \<subseteq> fst st'
          \<and> (if found then \<exists>x. (x, x) \<in> (edgesOf adj)\<^sup>+
              else snd st' = snd st \<and> finishedOk (edgesOf adj) (fst st' - snd st)))"

text \<open>\<open>rescheduled w u\<close>: \<open>u\<close> is \<open>w\<close> with, at most, other start and end instants, and
  is \<open>w\<close> itself when \<open>w\<close> is a maintenance order.\<close>

definition rescheduled :: "WorkOrderDocument \<Rightarrow> WorkOrderDocument \<Rightarrow> bool" where
  "rescheduled w u \<longleftrightarrow>
     (isMaintenance w \<longrightarrow> u = w)
     \<and> u = w\<lparr>startDate := startDate u, endDate := endDate u\<rparr>"

text \<open>A chain in which the last order names one parent twice.\<close>

definition repeatedParent :: "WorkOrderDocument list" where
  "repeatedParent =
     [mkOrder ''wo-a'' ''wc-1'' (wednesday + 8 * HOUR) (wednesday + 9 * HOUR) 60 False [],
      mkOrder ''wo-b'' ''wc-1'' (wednesday + 9 * HOUR) (wednesday + 10 * HOUR) 60 False
        [''wo-a''],
      mkOrder ''wo-c'' ''wc-1'' (wednesday + 10 * HOUR) (wednesday + 11 * HOUR) 60 False
        [''wo-b'', ''wo-a'', ''wo-b'']]"

text \<open>A production order followed by a maintenance order on the same work center
  that depends on it.\<close>

definition maintenanceInput :: ReflowInput where
  "maintenanceInput =
     \<lparr>inWorkOrders =
        [mkOrder ''wo-1'' ''wc-1'' (wednesday + 8 * HOUR) (wednesday + 10 * HOUR) 120 False [],
         mkOrder ''wo-maint'' ''wc-1'' (wednesday + 8 * HOUR) (wednesday + 10 * HOUR) 120 True
           [''wo-1'']],
      inWorkCenters = [lineA]\<rparr>"

text \<open>\<open>afterParent p u\<close>: \<open>u\<close> is a maintenance order, or does not name \<open>p\<close> as a
  parent, or starts no earlier than \<open>p\<close> ends.\<close>

definition afterParent :: "WorkOrderDocument \<Rightarrow> WorkOrderDocument \<Rightarrow> bool" where
  "afterParent p u \<longleftrightarrow>
     isMaintenance u \<or> docId p \<notin> set (dependsOnWorkOrderIds u) \<or> endDate p \<le> startDate u"



text \<open>The in-degree that Kahn's loop holds for an order once the nodes \<open>E\<close> are
  emitted; the order is ready when it is 0.\<close>

definition remaining :: "string set \<Rightarrow> WorkOrderDocument \<Rightarrow> int" where
  "remaining E c =
     int (length (dependsOnWorkOrderIds c)) - int (card (set (dependsOnWorkOrderIds c) \<inter> E))"

definition readyIn :: "string set \<Rightarrow> WorkOrderDocument \<Rightarrow> bool" where
  "readyIn E c \<longleftrightarrow> remaining E c = 0"

text \<open>
  A list is in the order in which Kahn's loop emits it when ids are not repeated,
  every order is ready once the orders before it are emitted, and, whatever
  prefix has been emitted, the orders that are ready then come before those
  that are not (the queue is first in, first out).
\<close>

definition kahnOrdered :: "WorkOrderDocument list \<Rightarrow> bool" where
  "kahnOrdered L \<longleftrightarrow>
     distinct (map docId L)
     \<and> (\<forall>i < length L. readyIn (docId ` set (take i L)) (L ! i))
     \<and> (\<forall>k \<le> length L.
           sorted_wrt (\<lambda>a b. readyIn (docId ` set (take k L)) b
                              \<longrightarrow> readyIn (docId ` set (take k L)) a) L)"

text \<open>The same for the ids emitted and queued while the loop runs on \<open>wos\<close>.\<close>

definition readyId :: "WorkOrderDocument list \<Rightarrow> string set \<Rightarrow> string \<Rightarrow> bool" where
  "readyId wos E k \<longleftrightarrow> (\<exists>c \<in> set wos. docId c = k \<and> readyIn E c)"

definition fifoInv :: "WorkOrderDocument list \<Rightarrow> string list \<Rightarrow> WorkOrderDocument list \<Rightarrow> bool" where
  "fifoInv wos queue result \<longleftrightarrow>
     (\<forall>k \<le> length result.
        sorted_wrt (\<lambda>a b. readyId wos (docId ` set (take k result)) b
                           \<longrightarrow> readyId wos (docId ` set (take k result)) a)
          (map docId result @ queue))"

text \<open>A second work center with the same shifts.\<close>

definition lineB :: WorkCenterDocument where
  "lineB = \<lparr>wcDocId = ''wc-2'', name = ''Line B'', shifts = weekdayShifts,
            maintenanceWindows = []\<rparr>"

text \<open>Inputs in which the id wo-x is used twice. In the first two, the first wo-x
  depends on wo-q and the second on wo-p, which depends on wo-r; wo-p is planned
  on the Wednesday in one and on the Thursday in the other.\<close>

definition repeatedIdEarly :: ReflowInput where
  "repeatedIdEarly =
     \<lparr>inWorkOrders =
        [mkOrder ''wo-x'' ''wc-2'' (wednesday + 8 * HOUR) (wednesday + 9 * HOUR) 60 False [''wo-q''],
         mkOrder ''wo-q'' ''wc-1'' (wednesday + 8 * HOUR) (wednesday + 9 * HOUR) 60 False [],
         mkOrder ''wo-r'' ''wc-1'' (wednesday + 9 * HOUR) (wednesday + 10 * HOUR) 60 False [],
         mkOrder ''wo-p'' ''wc-1'' (wednesday + 8 * HOUR) (wednesday + 9 * HOUR) 60 False [''wo-r''],
         mkOrder ''wo-x'' ''wc-2'' (wednesday + 8 * HOUR) (wednesday + 9 * HOUR) 60 False [''wo-p'']],
      inWorkCenters = [lineA, lineB]\<rparr>"

definition repeatedIdLate :: ReflowInput where
  "repeatedIdLate =
     \<lparr>inWorkOrders =
        [mkOrder ''wo-x'' ''wc-2'' (wednesday + 8 * HOUR) (wednesday + 9 * HOUR) 60 False [''wo-q''],
         mkOrder ''wo-q'' ''wc-1'' (wednesday + 8 * HOUR) (wednesday + 9 * HOUR) 60 False [],
         mkOrder ''wo-r'' ''wc-1'' (wednesday + 9 * HOUR) (wednesday + 10 * HOUR) 60 False [],
         mkOrder ''wo-p'' ''wc-1'' (wednesday + DAY + 8 * HOUR) (wednesday + DAY + 9 * HOUR) 60 False
           [''wo-r''],
         mkOrder ''wo-x'' ''wc-2'' (wednesday + 8 * HOUR) (wednesday + 9 * HOUR) 60 False [''wo-p'']],
      inWorkCenters = [lineA, lineB]\<rparr>"

text \<open>A maintenance order and a production order with the same id.\<close>

definition repeatedIdMaintenance :: ReflowInput where
  "repeatedIdMaintenance =
     \<lparr>inWorkOrders =
        [mkOrder ''wo-x'' ''wc-1'' (wednesday + 8 * HOUR) (wednesday + 10 * HOUR) 120 True [],
         mkOrder ''wo-x'' ''wc-1'' (wednesday + 8 * HOUR) (wednesday + 10 * HOUR) 120 False []],
      inWorkCenters = [lineA]\<rparr>"

text \<open>Two orders with the same id, each naming one parent twice.\<close>

definition repeatedIdParents :: "WorkOrderDocument list" where
  "repeatedIdParents =
     [mkOrder ''wo-x'' ''wc-1'' (wednesday + 8 * HOUR) (wednesday + 9 * HOUR) 60 False
        [''wo-y'', ''wo-y''],
      mkOrder ''wo-y'' ''wc-1'' (wednesday + 9 * HOUR) (wednesday + 10 * HOUR) 60 False [],
      mkOrder ''wo-z'' ''wc-1'' (wednesday + 10 * HOUR) (wednesday + 11 * HOUR) 60 False [],
      mkOrder ''wo-x'' ''wc-1'' (wednesday + 8 * HOUR) (wednesday + 9 * HOUR) 60 False
        [''wo-z'', ''wo-z'']]"


text \<open>A clock that reads 03:00 on the Wednesday at every reading.\<close>

definition earlyClock :: "nat \<Rightarrow> instant" where
  "earlyClock i = wednesday + 3 * HOUR"

text \<open>What a caller gets from \<^verbatim>\<open>new DependencyGraph(wos)\<close> followed by
  \<^verbatim>\<open>hasCycles()\<close> and \<^verbatim>\<open>topologicalSort()\<close>.\<close>

definition graphReport ::
  "WorkOrderDocument list \<Rightarrow> error + (bool option \<times> (error + WorkOrderDocument list))" where
  "graphReport wos = map_sum id (\<lambda>g. (hasCycles g, topologicalSort g)) (buildGraph wos)"


section \<open>Verified properties\<close>

subsection \<open>Calendar arithmetic\<close>

lemma DAY_pos: "0 < DAY"
  by (simp add: DAY_def)

lemma startOfDay_offset:
  assumes "d mod DAY = 0" and "0 \<le> x" and "x < DAY"
  shows "startOfDay (d + x) = d"
proof -
  from assms(1) obtain k where k: "d = k * DAY" by (metis mod_eq_0_iff_dvd dvd_def mult.commute)
  have "(k * DAY + x) div DAY = k" using assms(2,3) DAY_pos by simp
  then show ?thesis by (simp add: startOfDay_def k)
qed

lemma weekday_offset:
  assumes "d mod DAY = 0" and "0 \<le> x" and "x < DAY"
  shows "weekday (d + x) = weekday d"
proof -
  from assms(1) obtain k where k: "d = k * DAY" by (metis mod_eq_0_iff_dvd dvd_def mult.commute)
  have "(k * DAY + x) div DAY = k" using assms(2,3) DAY_pos by simp
  moreover have "(k * DAY) div DAY = k" using DAY_pos by simp
  ultimately show ?thesis by (simp add: weekday_def k)
qed

lemma nextDayStart_offset:
  assumes "d mod DAY = 0" and "0 \<le> x" and "x < DAY"
  shows "nextDayStart (d + x) = d + DAY"
proof -
  have "(d + DAY) mod DAY = 0" using assms(1) by simp
  from startOfDay_offset[OF this assms(2,3)] show ?thesis
    by (simp add: nextDayStart_def add.commute add.left_commute)
qed

subsection \<open>C1: the maintenance-fragmentation example\<close>

text \<open>
  C1 (as stated, refuted). On Wednesday 2025-01-15, with a Monday-to-Friday 08:00-17:00
  shift table and a maintenance window 10:00-14:00 that day, a 300-minute order
  starting at 08:00 is not completed at 15:00 the same day: \<^verbatim>\<open>calculateEndDate\<close>
  returns Thursday 11:00.
\<close>

theorem C1_same_day_counterexample:
  "calculateEndDate (wednesday + 8 * HOUR) 300 weekdayShifts
     [\<lparr>mwStartDate = wednesday + 10 * HOUR, mwEndDate = wednesday + 14 * HOUR\<rparr>]
   \<noteq> Inr (wednesday + 15 * HOUR)
   \<and> calculateEndDate (wednesday + 8 * HOUR) 300 weekdayShifts
     [\<lparr>mwStartDate = wednesday + 10 * HOUR, mwEndDate = wednesday + 14 * HOUR\<rparr>]
   = Inr (wednesday + DAY + 11 * HOUR)"
  by code_simp

text \<open>
  C1 (amended). For a day \<open>d\<close> (an instant at midnight UTC) whose weekday has an
  08:00-17:00 shift, with one maintenance window 10:00-14:00 on that day, and whose
  next day has an 08:00-17:00 shift too, \<^verbatim>\<open>calculateEndDate\<close> of a 300-minute order
  starting at 08:00 on \<open>d\<close> returns 11:00 of the next day: 120 minutes are worked
  before the maintenance window, work stops for the rest of that day, and the
  remaining 180 minutes are worked from the next day's shift start.
\<close>

theorem C1_next_day_completion:
  assumes midnight: "d mod DAY = 0"
    and today: "getShiftForDay (weekday d) shs = Some sh"
      "startHour sh = 8" "endHour sh = 17"
    and tomorrow: "getShiftForDay (weekday (d + DAY)) shs = Some sh'"
      "startHour sh' = 8" "endHour sh' = 17"
  shows "calculateEndDate (d + 8 * HOUR) 300 shs
           [\<lparr>mwStartDate = d + 10 * HOUR, mwEndDate = d + 14 * HOUR\<rparr>]
         = Inr (d + DAY + 11 * HOUR)"
proof -
  let ?mws = "[\<lparr>mwStartDate = d + 36000000, mwEndDate = d + 50400000\<rparr>]"
  have wd: "weekday (d + 28800000) = weekday d"
    by (rule weekday_offset[OF midnight]) (simp_all add: DAY_def)
  have sod: "startOfDay (d + 28800000) = d"
    by (rule startOfDay_offset[OF midnight]) (simp_all add: DAY_def)
  have nds: "nextDayStart (d + 28800000) = d + 86400000"
    using nextDayStart_offset[OF midnight, of 28800000] by (simp add: DAY_def)
  have midnight': "(d + DAY) mod DAY = 0" using midnight by simp
  have sod': "startOfDay (d + 86400000) = d + 86400000"
    using startOfDay_offset[OF midnight', of 0] by (simp add: DAY_def)
  note tomorrow' = tomorrow[unfolded DAY_def]
  have run: "calculateEndDate_loop (Suc (Suc (Suc k))) shs ?mws (d + 28800000) 18000000
               = Inr (d + 126000000)" for k
    by (simp add: wd today tomorrow' sod sod' nds getEffectiveShiftEnd_def setHour_def
          Let_def HOUR_def)
  have "(365::nat) = Suc (Suc (Suc 362))" by simp
  then show ?thesis
    unfolding calculateEndDate_def using run[of 362]
    by (simp add: HOUR_def DAY_def MINUTE_def)
qed

theorem C1_next_day_completion_witness:
  "wednesday mod DAY = 0
   \<and> getShiftForDay (weekday wednesday) weekdayShifts
       = Some \<lparr>dayOfWeek = 3, startHour = 8, endHour = 17\<rparr>
   \<and> getShiftForDay (weekday (wednesday + DAY)) weekdayShifts
       = Some \<lparr>dayOfWeek = 4, startHour = 8, endHour = 17\<rparr>
   \<and> calculateEndDate (wednesday + 8 * HOUR) 300 weekdayShifts
       [\<lparr>mwStartDate = wednesday + 10 * HOUR, mwEndDate = wednesday + 14 * HOUR\<rparr>]
     = Inr (wednesday + DAY + 11 * HOUR)"
proof -
  have m: "wednesday mod DAY = 0" by (simp add: wednesday_def DAY_def)
  have t: "getShiftForDay (weekday wednesday) weekdayShifts
             = Some \<lparr>dayOfWeek = 3, startHour = 8, endHour = 17\<rparr>"
    by code_simp
  have t': "getShiftForDay (weekday (wednesday + DAY)) weekdayShifts
             = Some \<lparr>dayOfWeek = 4, startHour = 8, endHour = 17\<rparr>"
    by code_simp
  from C1_next_day_completion[OF m t _ _ t'] m t t' show ?thesis by simp
qed

subsection \<open>C9: the next shift start\<close>

text \<open>
  C9 (the code departs from the claim). From Monday 2025-01-13 12:00 with a single
  shift on Tuesdays from 00:00 to 08:00, Tuesday 00:00 is a shift start strictly
  after the given instant and twelve hours away, yet \<^verbatim>\<open>findNextShiftStart\<close> fails
  with "no shift found": after the first day the scan stands at midnight and
  compares the shift start with that midnight, not with the given instant.
\<close>

theorem C9_midnight_shift_is_missed:
  "findNextShiftStart (wednesday - 2 * DAY + 12 * HOUR)
     [\<lparr>dayOfWeek = 2, startHour = 0, endHour = 8\<rparr>] = Inl NoShiftFound
   \<and> getShiftForDay (weekday (wednesday - DAY)) [\<lparr>dayOfWeek = 2, startHour = 0, endHour = 8\<rparr>]
       = Some \<lparr>dayOfWeek = 2, startHour = 0, endHour = 8\<rparr>
   \<and> setHour (wednesday - DAY) 0 = wednesday - DAY
   \<and> wednesday - 2 * DAY + 12 * HOUR < wednesday - DAY
   \<and> wednesday - DAY < wednesday - 2 * DAY + 12 * HOUR + 30 * DAY"
  by code_simp

subsection \<open>C2: topological sort of an acyclic list\<close>

text \<open>
  C2 (the code departs from the claim). The two orders of \<open>duplicatedParent\<close> have
  distinct ids and an acyclic dependency relation (the single edge from wo-1 to
  wo-2), the graph is built and \<^verbatim>\<open>hasCycles\<close> answers false; yet
  \<^verbatim>\<open>topologicalSort\<close> throws "Cycle detected in dependency graph" instead of
  returning the two orders, because wo-2 names wo-1 twice.
\<close>

theorem C2_duplicate_parent_rejected:
  "distinct (map docId duplicatedParent)
   \<and> dependencyEdges duplicatedParent = {(''wo-1'', ''wo-2'')}
   \<and> acyclic (dependencyEdges duplicatedParent)
   \<and> map_sum id (\<lambda>g. (hasCycles g, topologicalSort g)) (buildGraph duplicatedParent)
       = Inr (Some False, Inl CycleDetected)"
proof -
  have d: "distinct (map docId duplicatedParent)" by code_simp
  have e: "dependencyEdges duplicatedParent = {(''wo-1'', ''wo-2'')}"
    by (simp add: dependencyEdges_def duplicatedParent_def mkOrder_def)
  have a: "acyclic (dependencyEdges duplicatedParent)"
    unfolding e by (simp add: acyclic_insert) (simp add: acyclic_def)
  have r: "map_sum id (\<lambda>g. (hasCycles g, topologicalSort g)) (buildGraph duplicatedParent)
             = Inr (Some False, Inl CycleDetected)"
    by code_simp
  from d e a r show ?thesis by simp
qed

subsection \<open>C5: the overlap pass of the validator\<close>

















subsection \<open>Scheduling never moves backwards\<close>

lemma nextDayStart_gt: "t < nextDayStart t"
proof -
  have a: "(t + DAY) mod DAY < DAY" by (rule pos_mod_bound[OF DAY_pos])
  have b: "(t + DAY) div DAY * DAY + (t + DAY) mod DAY = t + DAY" by (rule div_mult_mod_eq)
  from a b have "t < (t + DAY) div DAY * DAY" by linarith
  then show ?thesis by (simp only: nextDayStart_def startOfDay_def)
qed

lemma findNextShiftStart_loop_gt:
  "findNextShiftStart_loop k cur shs = Inr t \<Longrightarrow> cur < t"
proof (induction k arbitrary: cur)
  case 0
  then show ?case by simp
next
  case (Suc k)
  have step: "findNextShiftStart_loop k (nextDayStart cur) shs = Inr t \<Longrightarrow> cur < t"
    using Suc.IH[of "nextDayStart cur"] nextDayStart_gt[of cur] by simp
  from Suc.prems show ?case
    by (auto simp: Let_def split: option.splits if_splits dest: step)
qed

lemma findNextShiftStart_gt: "findNextShiftStart t0 shs = Inr t \<Longrightarrow> t0 < t"
  unfolding findNextShiftStart_def by (rule findNextShiftStart_loop_gt)

lemma latest_fold_ge:
  "(acc::int) \<le> foldl (\<lambda>latest current. if current > latest then current else latest) acc ps
   \<and> (\<forall>p \<in> set ps. p \<le> foldl (\<lambda>latest current. if current > latest then current else latest) acc ps)"
proof (induction ps arbitrary: acc)
  case Nil
  then show ?case by simp
next
  case (Cons p ps)
  from Cons.IH[of "if p > (acc::int) then p else acc"] show ?case by (auto split: if_splits)
qed

lemma getEarliestStartTime_ge:
  assumes "getEarliestStartTime ps avail shs = Inr t"
  shows "avail \<le> t" and "\<forall>p \<in> set ps. p \<le> t"
proof -
  let ?latest = "foldl (\<lambda>latest current. if current > latest then current else latest) (0::int) ps"
  let ?e = "if avail > ?latest then avail else ?latest"
  have e: "?e \<le> t"
    using assms
    by (auto simp: getEarliestStartTime_def Let_def split: option.splits if_splits
        dest!: findNextShiftStart_gt)
  then show "avail \<le> t" by (simp split: if_splits)
  have "\<forall>p \<in> set ps. p \<le> ?latest" using latest_fold_ge[of 0 ps] by blast
  with e show "\<forall>p \<in> set ps. p \<le> t" by (auto split: if_splits)
qed

lemma calculateEndDate_loop_ge:
  "calculateEndDate_loop k shs mws cur rem = Inr t \<Longrightarrow> cur \<le> t"
proof (induction k arbitrary: cur rem)
  case 0
  then show ?case by simp
next
  case (Suc k)
  note later = Suc.IH
  from Suc.prems nextDayStart_gt[of cur] show ?case
    by (auto simp: Let_def split: if_splits option.splits dest!: later)
qed

lemma calculateEndDate_ge: "calculateEndDate s m shs mws = Inr t \<Longrightarrow> s \<le> t"
  unfolding calculateEndDate_def by (rule calculateEndDate_loop_ge)


subsection \<open>C3: no overlap on a work center\<close>

lemma mkWorkCenterMap_fold_key:
  "(\<And>k wc. map_of acc k = Some wc \<Longrightarrow> wcDocId wc = k) \<Longrightarrow>
   map_of (foldl (\<lambda>m wc. AList.update (wcDocId wc) wc m) acc wcs) k = Some wc \<Longrightarrow>
   wcDocId wc = k"
proof (induction wcs arbitrary: acc)
  case Nil
  then show ?case by simp
next
  case (Cons c wcs)
  show ?case
  proof (rule Cons.IH[of "AList.update (wcDocId c) c acc"])
    fix k' wc'
    assume "map_of (AList.update (wcDocId c) c acc) k' = Some wc'"
    then show "wcDocId wc' = k'"
      using Cons.prems(1)[of k' wc'] by (auto simp: update_conv split: if_splits)
  next
    from Cons.prems(2)
    show "map_of (foldl (\<lambda>m wc. AList.update (wcDocId wc) wc m)
                   (AList.update (wcDocId c) c acc) wcs) k = Some wc"
      by simp
  qed
qed

lemma mkWorkCenterMap_key:
  "map_of (mkWorkCenterMap wcs) k = Some wc \<Longrightarrow> wcDocId wc = k"
  unfolding mkWorkCenterMap_def by (rule mkWorkCenterMap_fold_key[of "[]"]) simp_all

lemma conflictFree_sym: "conflictFree a b \<longleftrightarrow> conflictFree b a"
  by (auto simp: conflictFree_def overlapping_def timePeriodsOverlap_def)

lemma conflictFree_after:
  "endDate a \<le> startDate b \<Longrightarrow> conflictFree a b"
  by (simp add: conflictFree_def overlapping_def timePeriodsOverlap_def)

lemma scheduleLoop_step:
  assumes "scheduleLoop now dag wcMap (workOrder # rest) (updated, chs, avail) = Inr res"
    and "\<not> isMaintenance workOrder"
  shows "\<exists>workCenter parents newStart newEnd.
           map_of wcMap (workCenterId workOrder) = Some workCenter
         \<and> getParents dag (docId workOrder) = Inr parents
         \<and> getEarliestStartTime (resolveParentEndTimes updated parents)
             (availableFrom now avail workCenter) (shifts workCenter) = Inr newStart
         \<and> calculateEndDate newStart (durationMinutes workOrder) (shifts workCenter)
             (maintenanceWindows workCenter) = Inr newEnd
         \<and> scheduleLoop now dag wcMap rest
             (updated @ [workOrder\<lparr>startDate := newStart, endDate := newEnd\<rparr>],
              chs @ changeEntries workOrder newStart newEnd,
              AList.update (wcDocId workCenter) newEnd avail) = Inr res"
  using assms by (auto split: option.splits sum.splits)

text \<open>The invariant of the scheduling loop: the orders scheduled so far are pairwise
  free of conflicts, and every scheduled order that is not maintenance ends no
  later than the instant from which its work center is available.\<close>

lemma scheduleLoop_invariant:
  assumes keys: "\<And>k wc. map_of wcMap k = Some wc \<Longrightarrow> wcDocId wc = k"
  shows "scheduleLoop now dag wcMap ws (updated, chs, avail) = Inr (updated', chs', avail') \<Longrightarrow>
         sorted_wrt conflictFree updated \<Longrightarrow>
         (\<forall>w \<in> set updated. \<not> isMaintenance w \<longrightarrow>
            (\<exists>t. map_of avail (workCenterId w) = Some t \<and> endDate w \<le> t)) \<Longrightarrow>
         sorted_wrt conflictFree updated'"
proof (induction ws arbitrary: updated chs avail)
  case Nil
  then show ?case by simp
next
  case (Cons workOrder rest)
  show ?case
  proof (cases "isMaintenance workOrder")
    case True
    with Cons.prems(1)
    have run: "scheduleLoop now dag wcMap rest (updated @ [workOrder], chs, avail)
                 = Inr (updated', chs', avail')" by simp
    have "\<forall>w \<in> set updated. conflictFree w workOrder"
      using True by (simp add: conflictFree_def)
    with Cons.prems(2) have "sorted_wrt conflictFree (updated @ [workOrder])"
      by (simp add: sorted_wrt_append)
    moreover have "\<forall>w \<in> set (updated @ [workOrder]). \<not> isMaintenance w \<longrightarrow>
            (\<exists>t. map_of avail (workCenterId w) = Some t \<and> endDate w \<le> t)"
      using Cons.prems(3) True by auto
    ultimately show ?thesis using Cons.IH[OF run] by blast
  next
    case False
    from scheduleLoop_step[OF Cons.prems(1) False]
    obtain workCenter parents newStart newEnd where
      wc: "map_of wcMap (workCenterId workOrder) = Some workCenter"
      and start: "getEarliestStartTime (resolveParentEndTimes updated parents)
             (availableFrom now avail workCenter) (shifts workCenter) = Inr newStart"
      and fin: "calculateEndDate newStart (durationMinutes workOrder) (shifts workCenter)
             (maintenanceWindows workCenter) = Inr newEnd"
      and run: "scheduleLoop now dag wcMap rest
             (updated @ [workOrder\<lparr>startDate := newStart, endDate := newEnd\<rparr>],
              chs @ changeEntries workOrder newStart newEnd,
              AList.update (wcDocId workCenter) newEnd avail) = Inr (updated', chs', avail')"
      by blast
    have k: "wcDocId workCenter = workCenterId workOrder" using keys[OF wc] .
    let ?new = "workOrder\<lparr>startDate := newStart, endDate := newEnd\<rparr>"
    have ge_avail: "(case map_of avail (workCenterId workOrder) of Some t \<Rightarrow> t | None \<Rightarrow> now)
                      \<le> newStart"
      using getEarliestStartTime_ge(1)[OF start] k by (simp add: availableFrom_def)
    have ge_start: "newStart \<le> newEnd" using calculateEndDate_ge[OF fin] .
    have before: "conflictFree w ?new" if w: "w \<in> set updated" for w
    proof (cases "isMaintenance w \<or> workCenterId w \<noteq> workCenterId workOrder")
      case True
      then show ?thesis by (auto simp: conflictFree_def)
    next
      case False
      with Cons.prems(3) w obtain t where
        t: "map_of avail (workCenterId workOrder) = Some t" "endDate w \<le> t" by auto
      with ge_avail have "endDate w \<le> startDate ?new" by simp
      then show ?thesis by (rule conflictFree_after)
    qed
    have 1: "sorted_wrt conflictFree (updated @ [?new])"
      using Cons.prems(2) before by (simp add: sorted_wrt_append)
    have 2: "\<forall>w \<in> set (updated @ [?new]). \<not> isMaintenance w \<longrightarrow>
            (\<exists>t. map_of (AList.update (wcDocId workCenter) newEnd avail) (workCenterId w) = Some t
                  \<and> endDate w \<le> t)"
    proof (intro ballI impI)
      fix w assume w: "w \<in> set (updated @ [?new])" and nm: "\<not> isMaintenance w"
      show "\<exists>t. map_of (AList.update (wcDocId workCenter) newEnd avail) (workCenterId w) = Some t
                  \<and> endDate w \<le> t"
      proof (cases "w \<in> set updated")
        case True
        with Cons.prems(3) nm obtain t where
          t: "map_of avail (workCenterId w) = Some t" "endDate w \<le> t" by auto
        show ?thesis
        proof (cases "workCenterId w = workCenterId workOrder")
          case True
          with t ge_avail ge_start have "endDate w \<le> newEnd" by simp
          with True k show ?thesis by (simp add: update_conv)
        next
          case False
          with t k show ?thesis by (simp add: update_conv)
        qed
      next
        case False
        with w have "w = ?new" by simp
        with k show ?thesis by (simp add: update_conv)
      qed
    qed
    from Cons.IH[OF run 1 2] show ?thesis .
  qed
qed

lemma reflow_conflictFree: "sorted_wrt conflictFree (updatedWorkOrders (reflow clock input))"
proof (cases "reflowBody clock input")
  case (Inl e)
  then show ?thesis by (simp add: reflow_def)
next
  case (Inr r)
  then have r: "reflow clock input = r" by (simp add: reflow_def)
  show ?thesis
  proof (cases "updatedWorkOrders r = []")
    case True
    with r show ?thesis by simp
  next
    case False
    with Inr obtain dag ordered avail chs avail' where
      "scheduleLoop (clock (length (inWorkCenters input))) dag
         (mkWorkCenterMap (inWorkCenters input)) ordered ([], [], avail)
         = Inr (updatedWorkOrders r, chs, avail')"
      by (auto simp: reflowBody_def split: sum.splits option.splits bool.splits)
    from scheduleLoop_invariant[OF mkWorkCenterMap_key this] r show ?thesis by simp
  qed
qed

text \<open>
  C3. In the \<^verbatim>\<open>updatedWorkOrders\<close> that \<^verbatim>\<open>reflow\<close> returns, two work orders at
  different positions that are both not maintenance and are assigned to the same
  work center never have overlapping half-open intervals. This holds for every
  input: on a failed reflow the list is empty.
\<close>

theorem C3_no_overlap_on_a_work_center:
  assumes "i < length (updatedWorkOrders (reflow clock input))"
    and "j < length (updatedWorkOrders (reflow clock input))"
    and "i \<noteq> j"
    and "\<not> isMaintenance (updatedWorkOrders (reflow clock input) ! i)"
    and "\<not> isMaintenance (updatedWorkOrders (reflow clock input) ! j)"
    and "workCenterId (updatedWorkOrders (reflow clock input) ! i)
           = workCenterId (updatedWorkOrders (reflow clock input) ! j)"
  shows "\<not> overlapping (updatedWorkOrders (reflow clock input) ! i)
                        (updatedWorkOrders (reflow clock input) ! j)"
proof -
  let ?U = "updatedWorkOrders (reflow clock input)"
  have s: "sorted_wrt conflictFree ?U" by (rule reflow_conflictFree)
  have "conflictFree (?U ! i) (?U ! j)"
  proof (cases "i < j")
    case True
    with s assms(2) show ?thesis by (simp add: sorted_wrt_iff_nth_less)
  next
    case False
    with assms(3) have "j < i" by simp
    with s assms(1) have "conflictFree (?U ! j) (?U ! i)" by (simp add: sorted_wrt_iff_nth_less)
    then show ?thesis by (simp add: conflictFree_sym)
  qed
  with assms(4-6) show ?thesis by (simp add: conflictFree_def)
qed

theorem C3_no_overlap_witness:
  "length (updatedWorkOrders (reflow (\<lambda>i. wednesday + 3 * HOUR) chainInput)) = 3
   \<and> \<not> isMaintenance (updatedWorkOrders (reflow (\<lambda>i. wednesday + 3 * HOUR) chainInput) ! 0)
   \<and> \<not> isMaintenance (updatedWorkOrders (reflow (\<lambda>i. wednesday + 3 * HOUR) chainInput) ! 1)
   \<and> workCenterId (updatedWorkOrders (reflow (\<lambda>i. wednesday + 3 * HOUR) chainInput) ! 0)
       = workCenterId (updatedWorkOrders (reflow (\<lambda>i. wednesday + 3 * HOUR) chainInput) ! 1)
   \<and> \<not> overlapping (updatedWorkOrders (reflow (\<lambda>i. wednesday + 3 * HOUR) chainInput) ! 0)
                     (updatedWorkOrders (reflow (\<lambda>i. wednesday + 3 * HOUR) chainInput) ! 1)"
proof -
  let ?U = "updatedWorkOrders (reflow (\<lambda>i. wednesday + 3 * HOUR) chainInput)"
  have len: "length ?U = 3" by code_simp
  have m0: "\<not> isMaintenance (?U ! 0)" by code_simp
  have m1: "\<not> isMaintenance (?U ! 1)" by code_simp
  have wc: "workCenterId (?U ! 0) = workCenterId (?U ! 1)" by code_simp
  have i: "0 < length ?U" and j: "1 < length ?U" using len by simp_all
  from C3_no_overlap_on_a_work_center[OF i j _ m0 m1 wc] len m0 m1 wc
  show ?thesis by simp
qed

subsection \<open>The dependency graph in closed form\<close>

lemma update_mapped:
  "distinct (map key xs) \<Longrightarrow>
   AList.update k v (map (\<lambda>x. (key x, F x)) xs)
     = (if k \<in> key ` set xs then map (\<lambda>x. (key x, if key x = k then v else F x)) xs
        else map (\<lambda>x. (key x, F x)) xs @ [(k, v)])"
  by (induction xs) (auto simp: image_iff)

lemma map_of_mapped:
  "distinct (map key xs) \<Longrightarrow> x \<in> set xs \<Longrightarrow>
   map_of (map (\<lambda>x. (key x, F x)) xs) (key x) = Some (F x)"
  by (induction xs) (auto simp: image_iff)

lemma map_of_mapped_None:
  "k \<notin> key ` set xs \<Longrightarrow> map_of (map (\<lambda>x. (key x, F x)) xs) k = None"
  by (induction xs) auto

lemma initNodes_snoc:
  "initNodes (wos @ [w]) =
     \<lparr>adjacencyList = AList.update (docId w) [] (adjacencyList (initNodes wos)),
      inDegree = AList.update (docId w) 0 (inDegree (initNodes wos)),
      workOrders = AList.update (docId w) w (workOrders (initNodes wos))\<rparr>"
  by (simp add: initNodes_def)

lemma initNodes_closed_form:
  "distinct (map docId wos) \<Longrightarrow>
   initNodes wos =
     \<lparr>adjacencyList = map (\<lambda>w. (docId w, [])) wos,
      inDegree = map (\<lambda>w. (docId w, 0)) wos,
      workOrders = map (\<lambda>w. (docId w, w)) wos\<rparr>"
proof (induction wos rule: rev_induct)
  case Nil
  then show ?case by (simp add: initNodes_def emptyGraph_def)
next
  case (snoc w wos)
  then have d: "distinct (map docId wos)" and fresh: "docId w \<notin> docId ` set wos" by auto
  show ?case
    unfolding initNodes_snoc snoc.IH[OF d]
    using fresh by (simp add: update_mapped[OF d])
qed

lemma setAdd_idem: "setAdd c (setAdd c xs) = setAdd c xs"
  by (simp add: setAdd_def)

lemma addEdges_closed_form:
  "distinct (map docId ws) \<Longrightarrow> set ps \<subseteq> docId ` set ws \<Longrightarrow>
   addEdges c ps (map (\<lambda>x. (docId x, F x)) ws)
     = Inr (map (\<lambda>x. (docId x, if docId x \<in> set ps then setAdd c (F x) else F x)) ws)"
proof (induction ps arbitrary: F)
  case Nil
  then show ?case by simp
next
  case (Cons p ps)
  from Cons.prems(2) obtain x where x: "x \<in> set ws" "docId x = p" by auto
  let ?F = "\<lambda>y. if docId y = p then setAdd c (F x) else F y"
  have look: "map_of (map (\<lambda>x. (docId x, F x)) ws) p = Some (F x)"
    using map_of_mapped[OF Cons.prems(1) x(1), of F] x(2) by simp
  have upd: "AList.update p (setAdd c (F x)) (map (\<lambda>x. (docId x, F x)) ws)
               = map (\<lambda>y. (docId y, ?F y)) ws"
    using update_mapped[OF Cons.prems(1), of p "setAdd c (F x)" F] x by auto
  have same: "y \<in> set ws \<Longrightarrow> p = docId y \<Longrightarrow> y = x" for y
    using Cons.prems(1) x by (auto simp: distinct_map inj_on_def)
  have "addEdges c (p # ps) (map (\<lambda>x. (docId x, F x)) ws)
          = addEdges c ps (map (\<lambda>y. (docId y, ?F y)) ws)"
    by (simp add: look upd)
  also have "\<dots> = Inr (map (\<lambda>y. (docId y, if docId y \<in> set ps then setAdd c (?F y) else ?F y)) ws)"
    using Cons.prems by (intro Cons.IH) auto
  also have "map (\<lambda>y. (docId y, if docId y \<in> set ps then setAdd c (?F y) else ?F y)) ws
           = map (\<lambda>y. (docId y, if docId y \<in> set (p # ps) then setAdd c (F y) else F y)) ws"
    by (rule map_cong) (auto simp: setAdd_idem dest!: same)
  finally show ?case .
qed

lemma addEdges_missing:
  "distinct (map docId ws) \<Longrightarrow> \<not> set ps \<subseteq> docId ` set ws \<Longrightarrow>
   \<exists>e. addEdges c ps (map (\<lambda>x. (docId x, F x)) ws) = Inl e"
proof (induction ps arbitrary: F)
  case Nil
  then show ?case by simp
next
  case (Cons p ps)
  show ?case
  proof (cases "p \<in> docId ` set ws")
    case False
    then show ?thesis by (simp add: map_of_mapped_None)
  next
    case True
    then obtain x where x: "x \<in> set ws" "docId x = p" by auto
    let ?F = "\<lambda>y. if docId y = p then setAdd c (F x) else F y"
    have look: "map_of (map (\<lambda>x. (docId x, F x)) ws) p = Some (F x)"
      using map_of_mapped[OF Cons.prems(1) x(1), of F] x(2) by simp
    have upd: "AList.update p (setAdd c (F x)) (map (\<lambda>x. (docId x, F x)) ws)
               = map (\<lambda>y. (docId y, ?F y)) ws"
      using update_mapped[OF Cons.prems(1), of p "setAdd c (F x)" F] x by auto
    from Cons.prems(2) True have "\<not> set ps \<subseteq> docId ` set ws" by auto
    from Cons.IH[OF Cons.prems(1) this, of ?F] show ?thesis by (simp add: look upd)
  qed
qed

lemma childrenOf_snoc:
  "childrenOf (pre @ [w]) p
     = childrenOf pre p @ (if p \<in> set (dependsOnWorkOrderIds w) then [docId w] else [])"
  by (simp add: childrenOf_def)

lemma childrenOf_subset: "set (childrenOf pre p) \<subseteq> docId ` set pre"
  by (auto simp: childrenOf_def)

lemma buildEdges_step:
  assumes d: "distinct (map docId ws)" and split: "ws = pre @ w # rest"
    and ps: "set (dependsOnWorkOrderIds w) \<subseteq> docId ` set ws"
  shows "buildEdges (w # rest) (graphAfter ws pre) = buildEdges rest (graphAfter ws (pre @ [w]))"
proof -
  have w: "w \<in> set ws" using split by simp
  have fresh: "docId w \<notin> docId ` set pre" using d split by auto
  have notin: "docId w \<notin> set (childrenOf pre p)" for p
    using fresh childrenOf_subset[of pre p] by blast
  have adj: "addEdges (docId w) (dependsOnWorkOrderIds w)
               (map (\<lambda>x. (docId x, childrenOf pre (docId x))) ws)
             = Inr (map (\<lambda>x. (docId x, childrenOf (pre @ [w]) (docId x))) ws)"
    unfolding addEdges_closed_form[OF d ps]
    by (auto simp: childrenOf_snoc setAdd_def notin)
  have same: "docId y = docId w \<Longrightarrow> y \<in> set ws \<Longrightarrow> y = w" for y
    using d w by (auto simp: distinct_map inj_on_def)
  have inpre: "y \<in> set ws \<Longrightarrow> y \<in> set pre \<Longrightarrow> docId y \<noteq> docId w" for y
    using fresh by (metis imageI)
  have deg: "AList.update (docId w) (int (length (dependsOnWorkOrderIds w)))
               (map (\<lambda>x. (docId x, if x \<in> set pre
                                     then int (length (dependsOnWorkOrderIds x)) else 0)) ws)
             = map (\<lambda>x. (docId x, if x \<in> set (pre @ [w])
                                     then int (length (dependsOnWorkOrderIds x)) else 0)) ws"
    unfolding update_mapped[OF d] using w
    by (auto dest: same inpre)
  show ?thesis
    by (simp add: graphAfter_def Let_def adj deg)
qed

lemma buildEdges_closed_form:
  "distinct (map docId ws) \<Longrightarrow> ws = pre @ rest \<Longrightarrow>
   \<forall>w \<in> set rest. set (dependsOnWorkOrderIds w) \<subseteq> docId ` set ws \<Longrightarrow>
   buildEdges rest (graphAfter ws pre) = Inr (graphAfter ws ws)"
proof (induction rest arbitrary: pre)
  case Nil
  then show ?case by simp
next
  case (Cons w rest)
  have "buildEdges (w # rest) (graphAfter ws pre) = buildEdges rest (graphAfter ws (pre @ [w]))"
    using Cons.prems by (intro buildEdges_step) auto
  also have "\<dots> = Inr (graphAfter ws ws)"
    using Cons.prems by (intro Cons.IH) auto
  finally show ?case .
qed

lemma buildEdges_missing:
  "distinct (map docId ws) \<Longrightarrow> ws = pre @ rest \<Longrightarrow>
   \<not> (\<forall>w \<in> set rest. set (dependsOnWorkOrderIds w) \<subseteq> docId ` set ws) \<Longrightarrow>
   \<exists>e. buildEdges rest (graphAfter ws pre) = Inl e"
proof (induction rest arbitrary: pre)
  case Nil
  then show ?case by simp
next
  case (Cons w rest)
  show ?case
  proof (cases "set (dependsOnWorkOrderIds w) \<subseteq> docId ` set ws")
    case True
    have "buildEdges (w # rest) (graphAfter ws pre) = buildEdges rest (graphAfter ws (pre @ [w]))"
      using Cons.prems True by (intro buildEdges_step) auto
    moreover have "\<exists>e. buildEdges rest (graphAfter ws (pre @ [w])) = Inl e"
      using Cons.prems True by (intro Cons.IH) auto
    ultimately show ?thesis by simp
  next
    case False
    from addEdges_missing[OF Cons.prems(1) False,
        where c = "docId w" and F = "\<lambda>x. childrenOf pre (docId x)"]
    obtain e where "addEdges (docId w) (dependsOnWorkOrderIds w)
                      (map (\<lambda>x. (docId x, childrenOf pre (docId x))) ws) = Inl e" by blast
    then show ?thesis by (simp add: graphAfter_def Let_def)
  qed
qed

lemma parentsExist_iff:
  "parentsExist wos \<longleftrightarrow> (\<forall>w \<in> set wos. set (dependsOnWorkOrderIds w) \<subseteq> docId ` set wos)"
  by (auto simp: parentsExist_def list_all_iff)

lemma graphAfter_nil: "distinct (map docId wos) \<Longrightarrow> graphAfter wos [] = initNodes wos"
  by (simp add: graphAfter_def initNodes_closed_form childrenOf_def)

lemma graphAfter_all: "graphAfter wos wos = graphOf wos"
  by (simp add: graphAfter_def graphOf_def)

lemma buildGraph_closed_form:
  assumes "distinct (map docId wos)"
  shows "parentsExist wos \<Longrightarrow> buildGraph wos = Inr (graphOf wos)"
    and "\<not> parentsExist wos \<Longrightarrow> \<exists>e. buildGraph wos = Inl e"
  using buildEdges_closed_form[OF assms, of "[]" wos] buildEdges_missing[OF assms, of "[]" wos]
  by (simp_all add: buildGraph_def parentsExist_iff graphAfter_nil[OF assms] graphAfter_all)

lemma buildGraph_Inr:
  assumes "distinct (map docId wos)" and "buildGraph wos = Inr g"
  shows "g = graphOf wos" and "parentsExist wos"
  using buildGraph_closed_form[OF assms(1)] assms(2) by (cases "parentsExist wos"; auto)+

subsection \<open>Kahn's algorithm\<close>

lemma reduceChildren_closed_form:
  "distinct cs \<Longrightarrow> set cs \<subseteq> fst ` set deg \<Longrightarrow> reduceChildren cs deg q = (deg', q') \<Longrightarrow>
   q' = q @ filter (\<lambda>c. map_of deg c = Some 1) cs
   \<and> map fst deg' = map fst deg
   \<and> (\<forall>k. map_of deg' k = (if k \<in> set cs then map_option (\<lambda>d. d - 1) (map_of deg k)
                              else map_of deg k))"
proof (induction cs arbitrary: deg q)
  case Nil
  then show ?case by simp
next
  case (Cons c cs)
  from Cons.prems(2) obtain d where d: "map_of deg c = Some d"
    by (cases "map_of deg c") (auto simp: map_of_eq_None_iff)
  let ?deg = "AList.update c (d - 1) deg"
  let ?q = "if d - 1 = 0 then q @ [c] else q"
  have run: "reduceChildren cs ?deg ?q = (deg', q')"
    using Cons.prems(3) d by (simp add: Let_def)
  have keys: "map fst ?deg = map fst deg"
    using Cons.prems(2) by (simp add: update_keys)
  have sub: "set cs \<subseteq> fst ` set ?deg" using Cons.prems(2) by (simp add: dom_update) blast
  have dist: "distinct cs" and fresh: "c \<notin> set cs" using Cons.prems(1) by auto
  from Cons.IH[OF dist sub run]
  have q': "q' = ?q @ filter (\<lambda>x. map_of ?deg x = Some 1) cs"
    and k': "map fst deg' = map fst ?deg"
    and m': "\<And>k. map_of deg' k = (if k \<in> set cs then map_option (\<lambda>d. d - 1) (map_of ?deg k)
                              else map_of ?deg k)"
    by blast+
  have same: "filter (\<lambda>x. map_of ?deg x = Some 1) cs = filter (\<lambda>x. map_of deg x = Some 1) cs"
    using fresh by (intro filter_cong) (auto simp: update_conv)
  have "q' = q @ filter (\<lambda>x. map_of deg x = Some 1) (c # cs)"
    unfolding q' same using d by auto
  moreover have "map fst deg' = map fst deg" using k' keys by simp
  moreover have "map_of deg' k = (if k \<in> set (c # cs) then map_option (\<lambda>d. d - 1) (map_of deg k)
                              else map_of deg k)" for k
    unfolding m' using fresh d by (auto simp: update_conv)
  ultimately show ?case by blast
qed

lemma childrenOf_distinct: "distinct (map docId wos) \<Longrightarrow> distinct (childrenOf wos p)"
  by (simp add: childrenOf_def distinct_map_filter)

lemma childrenOf_member:
  "k \<in> set (childrenOf wos p) \<longleftrightarrow> (\<exists>c \<in> set wos. docId c = k \<and> p \<in> set (dependsOnWorkOrderIds c))"
  by (auto simp: childrenOf_def)

lemma same_id_same_order:
  "distinct (map docId wos) \<Longrightarrow> a \<in> set wos \<Longrightarrow> b \<in> set wos \<Longrightarrow> docId a = docId b \<Longrightarrow> a = b"
  by (auto simp: distinct_map inj_on_def)

lemma graphOf_lookup:
  "distinct (map docId wos) \<Longrightarrow> w \<in> set wos \<Longrightarrow> map_of (workOrders (graphOf wos)) (docId w) = Some w"
  using map_of_mapped[of docId wos w "\<lambda>w. w"] by (simp add: graphOf_def)

lemma graphOf_lookup_None:
  "k \<notin> docId ` set wos \<Longrightarrow> map_of (workOrders (graphOf wos)) k = None"
  using map_of_mapped_None[of k docId wos "\<lambda>w. w"] by (simp add: graphOf_def)

lemma graphOf_neighbors:
  "distinct (map docId wos) \<Longrightarrow> w \<in> set wos \<Longrightarrow>
   neighborsOf (adjacencyList (graphOf wos)) (docId w) = childrenOf wos (docId w)"
  using map_of_mapped[of docId wos w "\<lambda>w. childrenOf wos (docId w)"]
  by (simp add: graphOf_def neighborsOf_def)

lemma card_emitted_parent:
  assumes "n \<in> set ps" and "n \<notin> E"
  shows "card (set ps \<inter> insert n E) = Suc (card (set ps \<inter> E))"
    and "card (set ps \<inter> E) < length ps"
proof -
  have "set ps \<inter> insert n E = insert n (set ps \<inter> E)" using assms by auto
  moreover have "n \<notin> set ps \<inter> E" using assms by auto
  ultimately show "card (set ps \<inter> insert n E) = Suc (card (set ps \<inter> E))" by simp
  have "set ps \<inter> E \<subseteq> set ps - {n}" using assms by auto
  then have "card (set ps \<inter> E) \<le> card (set ps - {n})" by (intro card_mono) auto
  also have "\<dots> < card (set ps)" using assms(1) by (intro card_Diff1_less) auto
  also have "\<dots> \<le> length ps" by (rule card_length)
  finally show "card (set ps \<inter> E) < length ps" .
qed

lemma all_parents_emitted:
  assumes "int (length ps) - int (card (set ps \<inter> E)) = 0"
  shows "set ps \<subseteq> E" and "distinct ps"
proof -
  have a: "card (set ps \<inter> E) \<le> card (set ps)" by (intro card_mono) auto
  have b: "card (set ps) \<le> length ps" by (rule card_length)
  from assms a b have eq: "card (set ps \<inter> E) = card (set ps)" and len: "card (set ps) = length ps"
    by simp_all
  have "set ps \<inter> E = set ps" using eq by (intro card_subset_eq) auto
  then show "set ps \<subseteq> E" by auto
  from len show "distinct ps" by (rule card_distinct)
qed


lemma kahnInvD:
  assumes "kahnInv wos queue deg res"
  shows "map fst deg = map docId wos"
    and "set res \<subseteq> set wos"
    and "set queue \<subseteq> docId ` set wos"
    and "distinct (map docId res @ queue)"
    and "\<And>c. c \<in> set wos \<Longrightarrow> map_of deg (docId c)
           = Some (int (length (dependsOnWorkOrderIds c))
                   - int (card (set (dependsOnWorkOrderIds c) \<inter> docId ` set res)))"
    and "\<And>c. c \<in> set wos \<Longrightarrow> docId c \<in> docId ` set res \<union> set queue
           \<longleftrightarrow> map_of deg (docId c) = Some 0"
    and "\<And>i. i < length res \<Longrightarrow>
           set (dependsOnWorkOrderIds (res ! i)) \<subseteq> docId ` set (take i res)"
  using assms unfolding kahnInv_def by simp_all

lemma kahnInvI:
  assumes "map fst deg = map docId wos"
    and "set res \<subseteq> set wos"
    and "set queue \<subseteq> docId ` set wos"
    and "distinct (map docId res @ queue)"
    and "\<And>c. c \<in> set wos \<Longrightarrow> map_of deg (docId c)
           = Some (int (length (dependsOnWorkOrderIds c))
                   - int (card (set (dependsOnWorkOrderIds c) \<inter> docId ` set res)))"
    and "\<And>c. c \<in> set wos \<Longrightarrow> docId c \<in> docId ` set res \<union> set queue
           \<longleftrightarrow> map_of deg (docId c) = Some 0"
    and "\<And>i. i < length res \<Longrightarrow>
           set (dependsOnWorkOrderIds (res ! i)) \<subseteq> docId ` set (take i res)"
  shows "kahnInv wos queue deg res"
  unfolding kahnInv_def using assms by simp

lemma kahnInv_step:
  assumes d: "distinct (map docId wos)"
    and inv: "kahnInv wos (n # q) deg res"
    and red: "reduceChildren (childrenOf wos n) deg q = (deg', q')"
    and w: "w \<in> set wos" "docId w = n"
  shows "kahnInv wos q' deg' (res @ [w])"
proof -
  let ?E = "docId ` set res"
  let ?cs = "childrenOf wos n"
  let ?pushed = "filter (\<lambda>c. map_of deg c = Some 1) ?cs"
  note keys = kahnInvD(1)[OF inv] and resw = kahnInvD(2)[OF inv]
    and qsub = kahnInvD(3)[OF inv] and dist = kahnInvD(4)[OF inv]
    and degc = kahnInvD(5)[OF inv] and mem = kahnInvD(6)[OF inv]
    and topo = kahnInvD(7)[OF inv]
  have nE: "n \<notin> ?E" and nq: "n \<notin> set q" using dist by auto
  have cs_dist: "distinct ?cs" using d by (rule childrenOf_distinct)
  have cs_sub: "set ?cs \<subseteq> fst ` set deg"
  proof -
    have "fst ` set deg = set (map fst deg)" by simp
    also have "\<dots> = docId ` set wos" unfolding keys by simp
    finally show ?thesis using childrenOf_subset[of wos n] by simp
  qed
  from reduceChildren_closed_form[OF cs_dist cs_sub red]
  have q': "q' = q @ ?pushed"
    and keys': "map fst deg' = map fst deg"
    and m': "\<And>k. map_of deg' k = (if k \<in> set ?cs then map_option (\<lambda>d. d - 1) (map_of deg k)
                                    else map_of deg k)"
    by blast+
  have child: "docId c \<in> set ?cs \<longleftrightarrow> n \<in> set (dependsOnWorkOrderIds c)" if "c \<in> set wos" for c
    using that same_id_same_order[OF d] by (auto simp: childrenOf_member)
  have E': "docId ` set (res @ [w]) = insert n ?E" using w by auto
  have waiting: "docId c \<notin> ?E \<union> set (n # q)"
    and positive: "\<exists>dd. map_of deg (docId c) = Some dd \<and> 1 \<le> dd"
    if c: "c \<in> set wos" and np: "n \<in> set (dependsOnWorkOrderIds c)" for c
  proof -
    from card_emitted_parent(2)[OF np nE]
    have "1 \<le> int (length (dependsOnWorkOrderIds c))
                 - int (card (set (dependsOnWorkOrderIds c) \<inter> ?E))" by simp
    with degc[OF c] show "\<exists>dd. map_of deg (docId c) = Some dd \<and> 1 \<le> dd" by simp
    then have "map_of deg (docId c) \<noteq> Some 0" by auto
    with mem[OF c] show "docId c \<notin> ?E \<union> set (n # q)" by simp
  qed
  have pushed_new: "x \<notin> ?E \<union> set (n # q)" if "x \<in> set ?pushed" for x
  proof -
    from that have "x \<in> set ?cs" by simp
    then obtain c where c: "c \<in> set wos" "docId c = x" "n \<in> set (dependsOnWorkOrderIds c)"
      by (auto simp: childrenOf_member)
    from waiting[OF c(1,3)] c(2) show ?thesis by simp
  qed
  have 1: "map fst deg' = map docId wos" using keys keys' by simp
  have 2: "set (res @ [w]) \<subseteq> set wos" using resw w by simp
  have 3: "set q' \<subseteq> docId ` set wos"
    using qsub childrenOf_subset[of wos n] unfolding q' by auto
  have 4: "distinct (map docId (res @ [w]) @ q')"
  proof -
    have "distinct ?pushed" using cs_dist by simp
    moreover have "set ?pushed \<inter> (?E \<union> set (n # q)) = {}" using pushed_new by blast
    ultimately show ?thesis using dist w unfolding q' by auto
  qed
  have 5: "map_of deg' (docId c)
           = Some (int (length (dependsOnWorkOrderIds c))
                   - int (card (set (dependsOnWorkOrderIds c) \<inter> docId ` set (res @ [w]))))"
    if c: "c \<in> set wos" for c
  proof (cases "n \<in> set (dependsOnWorkOrderIds c)")
    case True
    then show ?thesis
      unfolding E' m' using child[OF c] degc[OF c] card_emitted_parent(1)[OF True nE] by simp
  next
    case False
    then have "set (dependsOnWorkOrderIds c) \<inter> insert n ?E = set (dependsOnWorkOrderIds c) \<inter> ?E"
      by auto
    then show ?thesis
      unfolding E' m' using child[OF c] degc[OF c] False by simp
  qed
  have 6: "docId c \<in> docId ` set (res @ [w]) \<union> set q' \<longleftrightarrow> map_of deg' (docId c) = Some 0"
    if c: "c \<in> set wos" for c
  proof (cases "n \<in> set (dependsOnWorkOrderIds c)")
    case True
    from positive[OF c True] obtain dd where dd: "map_of deg (docId c) = Some dd" "1 \<le> dd" by blast
    have in_cs: "docId c \<in> set ?cs" using child[OF c] True by simp
    have "docId c \<in> docId ` set (res @ [w]) \<union> set q' \<longleftrightarrow> docId c \<in> set ?pushed"
      unfolding E' q' using waiting[OF c True] by auto
    also have "\<dots> \<longleftrightarrow> dd = 1" using in_cs dd by simp
    also have "\<dots> \<longleftrightarrow> map_of deg' (docId c) = Some 0" unfolding m' using in_cs dd by auto
    finally show ?thesis .
  next
    case False
    then have out: "docId c \<notin> set ?cs" using child[OF c] by simp
    then have "docId c \<notin> set ?pushed" by simp
    then have "docId c \<in> docId ` set (res @ [w]) \<union> set q' \<longleftrightarrow> docId c \<in> ?E \<union> set (n # q)"
      unfolding E' q' by auto
    also have "\<dots> \<longleftrightarrow> map_of deg (docId c) = Some 0" by (rule mem[OF c])
    also have "\<dots> \<longleftrightarrow> map_of deg' (docId c) = Some 0" unfolding m' using out by simp
    finally show ?thesis .
  qed
  have 7: "set (dependsOnWorkOrderIds ((res @ [w]) ! i)) \<subseteq> docId ` set (take i (res @ [w]))"
    if i: "i < length (res @ [w])" for i
  proof (cases "i < length res")
    case True
    with topo[OF True] show ?thesis by (simp add: nth_append)
  next
    case False
    with i have i': "i = length res" by simp
    have "docId w \<in> ?E \<union> set (n # q)" using w by simp
    with mem[OF w(1)] degc[OF w(1)]
    have "int (length (dependsOnWorkOrderIds w))
            - int (card (set (dependsOnWorkOrderIds w) \<inter> ?E)) = 0" by simp
    from all_parents_emitted(1)[OF this] show ?thesis unfolding i' by simp
  qed
  show ?thesis
    by (rule kahnInvI[OF 1 2 3 4 5 6 7])
qed

lemma kahnLoop_invariant:
  assumes d: "distinct (map docId wos)"
  shows "kahnInv wos q deg res \<Longrightarrow>
         \<exists>deg'. kahnInv wos [] deg' (kahnLoop (graphOf wos) q deg res)"
proof (induction "graphOf wos" q deg res rule: kahnLoop.induct)
  case (1 deg result)
  then show ?case by auto
next
  case (2 nodeId queue deg result)
  from kahnInvD(3)[OF "2.prems"] have "nodeId \<in> docId ` set wos" by simp
  then obtain w where w: "w \<in> set wos" "docId w = nodeId" by auto
  obtain deg' queue' where red: "reduceChildren (childrenOf wos nodeId) deg queue = (deg', queue')"
    by (cases "reduceChildren (childrenOf wos nodeId) deg queue") auto
  have look: "map_of (workOrders (graphOf wos)) nodeId = Some w"
    using graphOf_lookup[OF d w(1)] w(2) by simp
  have nb: "neighborsOf (adjacencyList (graphOf wos)) nodeId = childrenOf wos nodeId"
    using graphOf_neighbors[OF d w(1)] w(2) by simp
  have inv': "kahnInv wos queue' deg' (result @ [w])"
    by (rule kahnInv_step[OF d "2.prems" red w])
  have "kahnLoop (graphOf wos) (nodeId # queue) deg result
          = kahnLoop (graphOf wos) queue' deg' (result @ [w])"
    by (simp add: look nb red)
  moreover have "\<exists>deg''. kahnInv wos [] deg'' (kahnLoop (graphOf wos) queue' deg' (result @ [w]))"
    by (rule "2.hyps"[OF _ _ _ inv']) (simp_all add: look nb red)
  ultimately show ?case by simp
qed

lemma kahnInv_initial:
  assumes d: "distinct (map docId wos)"
  shows "kahnInv wos (map fst (filter (\<lambda>entry. snd entry = 0) (inDegree (graphOf wos))))
           (inDegree (graphOf wos)) []"
proof -
  let ?deg = "inDegree (graphOf wos)"
  let ?q = "map fst (filter (\<lambda>entry. snd entry = 0) ?deg)"
  have q: "?q = map docId (filter (\<lambda>w. dependsOnWorkOrderIds w = []) wos)"
    by (simp add: graphOf_def filter_map comp_def)
  have look: "map_of ?deg (docId c) = Some (int (length (dependsOnWorkOrderIds c)))"
    if "c \<in> set wos" for c
    using map_of_mapped[OF d that, of "\<lambda>w. int (length (dependsOnWorkOrderIds w))"]
    by (simp add: graphOf_def)
  have mem: "docId c \<in> set ?q \<longleftrightarrow> dependsOnWorkOrderIds c = []" if c: "c \<in> set wos" for c
  proof
    assume "docId c \<in> set ?q"
    then obtain x where x: "x \<in> set wos" "dependsOnWorkOrderIds x = []" "docId x = docId c"
      unfolding q by auto
    from same_id_same_order[OF d x(1) c x(3)] x(2) show "dependsOnWorkOrderIds c = []" by simp
  next
    assume "dependsOnWorkOrderIds c = []"
    with c show "docId c \<in> set ?q" unfolding q by auto
  qed
  have "map fst ?deg = map docId wos" by (simp add: graphOf_def comp_def)
  moreover have "set ?q \<subseteq> docId ` set wos" unfolding q by auto
  moreover have "distinct ?q" unfolding q using d by (simp add: distinct_map_filter)
  ultimately show ?thesis
  proof (intro kahnInvI)
    show "map fst ?deg = map docId wos" by fact
    show "set [] \<subseteq> set wos" by simp
    show "set ?q \<subseteq> docId ` set wos" by fact
    show "distinct (map docId [] @ ?q)" using \<open>distinct ?q\<close> by simp
    show "map_of ?deg (docId c)
           = Some (int (length (dependsOnWorkOrderIds c))
                   - int (card (set (dependsOnWorkOrderIds c) \<inter> docId ` set [])))"
      if "c \<in> set wos" for c using look[OF that] by simp
    show "docId c \<in> docId ` set [] \<union> set ?q \<longleftrightarrow> map_of ?deg (docId c) = Some 0"
      if "c \<in> set wos" for c using look[OF that] mem[OF that] by simp
    show "set (dependsOnWorkOrderIds ([] ! i)) \<subseteq> docId ` set (take i [])"
      if "i < length ([]::WorkOrderDocument list)" for i using that by simp
  qed
qed


text \<open>What the loop of Kahn's algorithm has produced when it ends.\<close>

lemma kahn_result:
  assumes d: "distinct (map docId wos)"
  defines "res \<equiv> kahnLoop (graphOf wos)
                    (map fst (filter (\<lambda>entry. snd entry = 0) (inDegree (graphOf wos))))
                    (inDegree (graphOf wos)) []"
  shows "set res \<subseteq> set wos"
    and "distinct (map docId res)"
    and "\<And>i. i < length res \<Longrightarrow>
           set (dependsOnWorkOrderIds (res ! i)) \<subseteq> docId ` set (take i res)"
    and "\<And>w. w \<in> set res \<Longrightarrow> distinct (dependsOnWorkOrderIds w)"
proof -
  from kahnLoop_invariant[OF d kahnInv_initial[OF d]]
  obtain deg' where inv: "kahnInv wos [] deg' res" unfolding res_def by blast
  show "set res \<subseteq> set wos" by (rule kahnInvD(2)[OF inv])
  show "distinct (map docId res)" using kahnInvD(4)[OF inv] by simp
  show "set (dependsOnWorkOrderIds (res ! i)) \<subseteq> docId ` set (take i res)"
    if "i < length res" for i using kahnInvD(7)[OF inv that] .
  show "distinct (dependsOnWorkOrderIds w)" if w: "w \<in> set res" for w
  proof -
    have w': "w \<in> set wos" using w kahnInvD(2)[OF inv] by blast
    have "docId w \<in> docId ` set res \<union> set []" using w by simp
    with kahnInvD(6)[OF inv w'] kahnInvD(5)[OF inv w']
    have "int (length (dependsOnWorkOrderIds w))
            - int (card (set (dependsOnWorkOrderIds w) \<inter> docId ` set res)) = 0" by simp
    then show ?thesis by (rule all_parents_emitted(2))
  qed
qed

lemma full_sublist:
  assumes "set res \<subseteq> set wos" and "distinct res" and "length res = length wos"
  shows "set res = set wos" and "distinct wos"
proof -
  have "card (set wos) \<le> length wos" by (rule card_length)
  also have "\<dots> = card (set res)" using assms(2,3) by (simp add: distinct_card)
  finally have le: "card (set wos) \<le> card (set res)" .
  show eq: "set res = set wos" using assms(1) le by (intro card_seteq) auto
  have "card (set wos) = length wos" using eq assms(2,3) by (metis distinct_card)
  then show "distinct wos" by (rule card_distinct)
qed

lemma topologicalSort_Inr:
  assumes d: "distinct (map docId wos)"
    and sorted: "topologicalSort (graphOf wos) = Inr L"
  shows "mset L = mset wos"
    and "distinct (map docId L)"
    and "\<And>i. i < length L \<Longrightarrow>
           set (dependsOnWorkOrderIds (L ! i)) \<subseteq> docId ` set (take i L)"
    and "\<And>w. w \<in> set wos \<Longrightarrow> distinct (dependsOnWorkOrderIds w)"
    and "hasCycles (graphOf wos) = Some False"
proof -
  let ?res = "kahnLoop (graphOf wos)
                (map fst (filter (\<lambda>entry. snd entry = 0) (inDegree (graphOf wos))))
                (inDegree (graphOf wos)) []"
  from sorted show hc: "hasCycles (graphOf wos) = Some False"
    by (auto simp: topologicalSort_def split: option.splits bool.splits if_splits)
  from sorted hc have L: "L = ?res" and len: "length ?res = length wos"
    by (auto simp: topologicalSort_def Let_def graphOf_def split: if_splits)
  note k = kahn_result[OF d]
  have dres: "distinct ?res" using k(2) by (simp add: distinct_map)
  have seteq: "set ?res = set wos" by (rule full_sublist(1)[OF k(1) dres len])
  have dwos: "distinct wos" using d by (simp add: distinct_map)
  show "mset L = mset wos" unfolding L using seteq dres dwos
    by (simp add: set_eq_iff_mset_eq_distinct)
  show "distinct (map docId L)" unfolding L by (rule k(2))
  show "set (dependsOnWorkOrderIds (L ! i)) \<subseteq> docId ` set (take i L)" if "i < length L" for i
    using k(3)[of i] that unfolding L by simp
  show "distinct (dependsOnWorkOrderIds w)" if "w \<in> set wos" for w
    using k(4)[of w] that seteq by simp
qed

lemma topologicalSort_duplicate_parent:
  assumes d: "distinct (map docId wos)"
    and hc: "hasCycles (graphOf wos) = Some False"
    and dup: "w \<in> set wos" "\<not> distinct (dependsOnWorkOrderIds w)"
  shows "topologicalSort (graphOf wos) = Inl CycleDetected"
proof -
  have "\<not> (\<exists>L. topologicalSort (graphOf wos) = Inr L)"
    using topologicalSort_Inr(4)[OF d _ dup(1)] dup(2) by blast
  with hc show ?thesis
    by (auto simp: topologicalSort_def Let_def split: if_splits)
qed

subsection \<open>Cycle detection\<close>

lemma closed_rtrancl:
  assumes "R `` B \<subseteq> B" and "(c, x) \<in> R\<^sup>*" and "c \<in> B"
  shows "x \<in> B"
  using assms(2,3,1) by (induction rule: rtrancl_induct) auto

lemma finishedOk_add:
  assumes ok: "finishedOk R B" and out: "R `` {n} \<subseteq> B" and new: "n \<notin> B"
  shows "finishedOk R (insert n B)"
proof -
  from ok have closed: "R `` B \<subseteq> B" and free: "\<And>b. b \<in> B \<Longrightarrow> (b, b) \<notin> R\<^sup>+"
    by (auto simp: finishedOk_def)
  have "R `` insert n B \<subseteq> insert n B" using closed out by auto
  moreover have "(n, n) \<notin> R\<^sup>+"
  proof
    assume "(n, n) \<in> R\<^sup>+"
    then obtain c where c: "(n, c) \<in> R" "(c, n) \<in> R\<^sup>*" by (auto dest: tranclD)
    from c(1) out have "c \<in> B" by auto
    from closed_rtrancl[OF closed c(2) this] new show False by simp
  qed
  ultimately show ?thesis using free by (auto simp: finishedOk_def)
qed

lemma card_unvisited_less:
  assumes "finite N" and "n \<in> N" and "n \<notin> V" and "card (N - V) \<le> Suc d"
  shows "card (N - insert n V) \<le> d"
proof -
  have "N - insert n V = (N - V) - {n}" by auto
  moreover have "n \<in> N - V" using assms by simp
  moreover have "finite (N - V)" using assms(1) by simp
  ultimately have "card (N - insert n V) = card (N - V) - 1" by simp
  with assms(4) show ?thesis by simp
qed

lemma card_unvisited_mono:
  assumes "finite N" and "V \<subseteq> V'"
  shows "card (N - V') \<le> card (N - V)"
  using assms by (intro card_mono) auto

lemma dfs_correct:
  fixes N :: "string set"
  shows "dfsPre adj N depth st \<longrightarrow> nodeId \<notin> fst st \<longrightarrow> nodeId \<in> N
           \<longrightarrow> (\<forall>s \<in> snd st. (s, nodeId) \<in> (edgesOf adj)\<^sup>*)
           \<longrightarrow> dfsPost adj st (dfs depth adj nodeId st)
               \<and> (\<forall>st'. dfs depth adj nodeId st = Some (False, st') \<longrightarrow> nodeId \<in> fst st')"
    and "\<forall>n. dfsPre adj N depth st \<longrightarrow> n \<in> snd st \<longrightarrow> set nbs \<subseteq> set (neighborsOf adj n)
           \<longrightarrow> (\<forall>s \<in> snd st. (s, n) \<in> (edgesOf adj)\<^sup>*)
           \<longrightarrow> dfsPost adj st (dfsNeighbors depth adj nbs st)
               \<and> (\<forall>st'. dfsNeighbors depth adj nbs st = Some (False, st')
                      \<longrightarrow> set nbs \<subseteq> fst st' - snd st)"
proof (induction depth adj nodeId st and depth adj nbs st rule: dfs_dfsNeighbors.induct)
  case (1 adj nodeId st)
  show ?case
  proof (intro impI)
    assume pre: "dfsPre adj N 0 st" and "nodeId \<notin> fst st" "nodeId \<in> N"
    then have "nodeId \<in> N - fst st" and "finite (N - fst st)" and "card (N - fst st) = 0"
      by (auto simp: dfsPre_def)
    then have False by auto
    then show "dfsPost adj st (dfs 0 adj nodeId st)
               \<and> (\<forall>st'. dfs 0 adj nodeId st = Some (False, st') \<longrightarrow> nodeId \<in> fst st')" ..
  qed
next
  case (2 depth adj nodeId st)
  let ?R = "edgesOf adj"
  let ?st1 = "(insert nodeId (fst st), insert nodeId (snd st))"
  show ?case
  proof (intro impI)
    assume pre: "dfsPre adj N (Suc depth) st" and fresh: "nodeId \<notin> fst st"
      and node: "nodeId \<in> N" and path: "\<forall>s \<in> snd st. (s, nodeId) \<in> ?R\<^sup>*"
    from pre have fin: "finite N" and closure: "\<And>p. set (neighborsOf adj p) \<subseteq> N"
      and stack: "snd st \<subseteq> fst st" and fuel: "card (N - fst st) \<le> Suc depth"
      and ok: "finishedOk ?R (fst st - snd st)"
      by (auto simp: dfsPre_def)
    have off: "nodeId \<notin> snd st" using fresh stack by auto
    have same: "fst ?st1 - snd ?st1 = fst st - snd st" using fresh by auto
    have pre1: "dfsPre adj N depth ?st1"
      unfolding dfsPre_def same
      using fin closure stack ok card_unvisited_less[OF fin node fresh fuel] by auto
    have path1: "\<forall>s \<in> snd ?st1. (s, nodeId) \<in> ?R\<^sup>*" using path by auto
    from "2.IH" pre1 path1
    have post: "dfsPost adj ?st1 (dfsNeighbors depth adj (neighborsOf adj nodeId) ?st1)"
      and black: "\<And>st'. dfsNeighbors depth adj (neighborsOf adj nodeId) ?st1 = Some (False, st')
                    \<Longrightarrow> set (neighborsOf adj nodeId) \<subseteq> fst st' - snd ?st1"
      by auto
    from post obtain found st' where
      run: "dfsNeighbors depth adj (neighborsOf adj nodeId) ?st1 = Some (found, st')"
      and grow: "fst ?st1 \<subseteq> fst st'"
      and res: "if found then \<exists>x. (x, x) \<in> ?R\<^sup>+
                else snd st' = snd ?st1 \<and> finishedOk ?R (fst st' - snd ?st1)"
      by (auto simp: dfsPost_def split: option.splits)
    show "dfsPost adj st (dfs (Suc depth) adj nodeId st)
          \<and> (\<forall>st'. dfs (Suc depth) adj nodeId st = Some (False, st') \<longrightarrow> nodeId \<in> fst st')"
    proof (cases found)
      case True
      with run res grow show ?thesis by (auto simp: dfsPost_def)
    next
      case False
      with res have stk': "snd st' = insert nodeId (snd st)"
        and ok': "finishedOk ?R (fst st' - insert nodeId (snd st))" by auto
      from run False
      have run': "dfsNeighbors depth adj (neighborsOf adj nodeId) ?st1 = Some (False, st')"
        by simp
      from black[OF run']
      have out: "?R `` {nodeId} \<subseteq> fst st' - insert nodeId (snd st)"
        by (auto simp: edgesOf_def)
      have "finishedOk ?R (insert nodeId (fst st' - insert nodeId (snd st)))"
        by (rule finishedOk_add[OF ok' out]) simp
      moreover have "insert nodeId (fst st' - insert nodeId (snd st)) = fst st' - snd st"
        using grow off by auto
      ultimately have fin': "finishedOk ?R (fst st' - snd st)" by simp
      have "dfs (Suc depth) adj nodeId st = Some (False, (fst st', snd st))"
        using run False stk' off by simp
      with fin' grow show ?thesis by (auto simp: dfsPost_def)
    qed
  qed
next
  case (3 depth adj st)
  show ?case by (auto simp: dfsPost_def dfsPre_def)
next
  case (4 depth adj neighborId rest st)
  let ?R = "edgesOf adj"
  show ?case
  proof (intro allI impI)
    fix n
    assume pre: "dfsPre adj N depth st" and onstack: "n \<in> snd st"
      and nbs: "set (neighborId # rest) \<subseteq> set (neighborsOf adj n)"
      and path: "\<forall>s \<in> snd st. (s, n) \<in> ?R\<^sup>*"
    from pre have fin: "finite N" and closure: "\<And>p. set (neighborsOf adj p) \<subseteq> N"
      and stack: "snd st \<subseteq> fst st" and fuel: "card (N - fst st) \<le> depth"
      and ok: "finishedOk ?R (fst st - snd st)"
      by (auto simp: dfsPre_def)
    have edge: "(n, neighborId) \<in> ?R" using nbs by (simp add: edgesOf_def)
    have rest: "set rest \<subseteq> set (neighborsOf adj n)" using nbs by simp
    show "dfsPost adj st (dfsNeighbors depth adj (neighborId # rest) st)
          \<and> (\<forall>st'. dfsNeighbors depth adj (neighborId # rest) st = Some (False, st')
                 \<longrightarrow> set (neighborId # rest) \<subseteq> fst st' - snd st)"
    proof (cases "neighborId \<notin> fst st")
      case True
      have inN: "neighborId \<in> N" using nbs closure[of n] by auto
      have path': "\<forall>s \<in> snd st. (s, neighborId) \<in> ?R\<^sup>*"
        using path edge by (auto intro: rtrancl_into_rtrancl)
      from "4.IH"(1)[OF True] pre True inN path'
      have post: "dfsPost adj st (dfs depth adj neighborId st)"
        and seen: "\<And>st'. dfs depth adj neighborId st = Some (False, st') \<Longrightarrow> neighborId \<in> fst st'"
        by auto
      from post obtain found st1 where
        run: "dfs depth adj neighborId st = Some (found, st1)"
        and grow: "fst st \<subseteq> fst st1"
        and res: "if found then \<exists>x. (x, x) \<in> ?R\<^sup>+
                  else snd st1 = snd st \<and> finishedOk ?R (fst st1 - snd st)"
        by (auto simp: dfsPost_def split: option.splits)
      show ?thesis
      proof (cases found)
        case True
        with run res grow \<open>neighborId \<notin> fst st\<close> show ?thesis by (auto simp: dfsPost_def)
      next
        case False
        with res have stk1: "snd st1 = snd st" and ok1: "finishedOk ?R (fst st1 - snd st)"
          by auto
        have nb1: "neighborId \<in> fst st1" using seen run False by simp
        have pre1: "dfsPre adj N depth st1"
          unfolding dfsPre_def stk1
          using fin closure stack grow ok1 fuel card_unvisited_mono[OF fin grow] by auto
        from "4.IH"(2)[OF True run _ False, of st1] pre1 onstack rest path stk1
        have post2: "dfsPost adj st1 (dfsNeighbors depth adj rest st1)"
          and black2: "\<And>st'. dfsNeighbors depth adj rest st1 = Some (False, st')
                         \<Longrightarrow> set rest \<subseteq> fst st' - snd st1"
          by auto
        have unfold: "dfsNeighbors depth adj (neighborId # rest) st = dfsNeighbors depth adj rest st1"
          using True run False by simp
        have "dfsPost adj st (dfsNeighbors depth adj rest st1)"
          using post2 grow stk1 by (auto simp: dfsPost_def split: option.splits if_splits)
        moreover have "set (neighborId # rest) \<subseteq> fst st' - snd st"
          if r: "dfsNeighbors depth adj rest st1 = Some (False, st')" for st'
        proof -
          from post2 r have "fst st1 \<subseteq> fst st'" by (auto simp: dfsPost_def)
          with nb1 True stack black2[OF r] stk1 show ?thesis by auto
        qed
        ultimately show ?thesis unfolding unfold by blast
      qed
    next
      case False
      then have visited: "neighborId \<in> fst st" by simp
      show ?thesis
      proof (cases "neighborId \<in> snd st")
        case True
        with path have "(neighborId, n) \<in> ?R\<^sup>*" by blast
        from this edge have "(neighborId, neighborId) \<in> ?R\<^sup>+"
          by (rule rtrancl_into_trancl1)
        then have "\<exists>x. (x, x) \<in> ?R\<^sup>+" by blast
        with visited True show ?thesis by (simp add: dfsPost_def)
      next
        case notstack: False
        from "4.IH"(3)[OF False notstack] pre onstack rest path
        have post3: "dfsPost adj st (dfsNeighbors depth adj rest st)"
          and black3: "\<And>st'. dfsNeighbors depth adj rest st = Some (False, st')
                         \<Longrightarrow> set rest \<subseteq> fst st' - snd st"
          by auto
        have unfold: "dfsNeighbors depth adj (neighborId # rest) st = dfsNeighbors depth adj rest st"
          using visited notstack by simp
        have "set (neighborId # rest) \<subseteq> fst st' - snd st"
          if r: "dfsNeighbors depth adj rest st = Some (False, st')" for st'
        proof -
          from post3 r have "fst st \<subseteq> fst st'" by (auto simp: dfsPost_def)
          with visited notstack black3[OF r] show ?thesis by auto
        qed
        with post3 show ?thesis unfolding unfold by blast
      qed
    qed
  qed
qed


lemma hasCycles_loop_correct:
  "dfsPre adj N depth (vis, {}) \<Longrightarrow> set nodes \<subseteq> N \<Longrightarrow>
   \<exists>b. hasCycles_loop depth adj nodes (vis, {}) = Some b
       \<and> (if b then \<exists>x. (x, x) \<in> (edgesOf adj)\<^sup>+
           else \<exists>vis'. vis \<union> set nodes \<subseteq> vis' \<and> finishedOk (edgesOf adj) vis')"
proof (induction nodes arbitrary: vis)
  case Nil
  then show ?case by (auto simp: dfsPre_def)
next
  case (Cons nodeId rest)
  let ?R = "edgesOf adj"
  show ?case
  proof (cases "nodeId \<in> vis")
    case True
    from Cons.prems(2) have "set rest \<subseteq> N" by simp
    from Cons.IH[OF Cons.prems(1) this]
    obtain b where b: "hasCycles_loop depth adj rest (vis, {}) = Some b"
      "if b then \<exists>x. (x, x) \<in> ?R\<^sup>+
       else \<exists>vis'. vis \<union> set rest \<subseteq> vis' \<and> finishedOk ?R vis'"
      by blast
    have eq1: "hasCycles_loop depth adj (nodeId # rest) (vis, {})
            = hasCycles_loop depth adj rest (vis, {})"
      using True by simp
    have eq2: "vis \<union> set (nodeId # rest) = vis \<union> set rest" using True by auto
    show ?thesis unfolding eq1 eq2 using b by blast
  next
    case False
    have inN: "nodeId \<in> N" using Cons.prems(2) by simp
    from dfs_correct(1)[of adj N depth "(vis, {})" nodeId] Cons.prems(1) False inN
    have post: "dfsPost adj (vis, {}) (dfs depth adj nodeId (vis, {}))"
      and seen: "\<And>st'. dfs depth adj nodeId (vis, {}) = Some (False, st') \<Longrightarrow> nodeId \<in> fst st'"
      by simp_all
    from post obtain found st1 where
      run: "dfs depth adj nodeId (vis, {}) = Some (found, st1)"
      by (cases "dfs depth adj nodeId (vis, {})") (auto simp: dfsPost_def)
    from post run have grow: "vis \<subseteq> fst st1"
      and res: "if found then \<exists>x. (x, x) \<in> ?R\<^sup>+
                else snd st1 = {} \<and> finishedOk ?R (fst st1)"
      by (auto simp: dfsPost_def split: if_splits)
    show ?thesis
    proof (cases found)
      case True
      with run False have "hasCycles_loop depth adj (nodeId # rest) (vis, {}) = Some True"
        by simp
      with res True show ?thesis by (intro exI[of _ True]) simp
    next
      case notfound: False
      with res have st1: "st1 = (fst st1, {})" and ok1: "finishedOk ?R (fst st1)"
        by (auto simp: prod_eq_iff)
      have nb1: "nodeId \<in> fst st1" using seen run notfound by simp
      from Cons.prems(1) have fin: "finite N" and fuel: "card (N - vis) \<le> depth"
        and closure: "\<forall>p. set (neighborsOf adj p) \<subseteq> N"
        by (auto simp: dfsPre_def)
      have pre1: "dfsPre adj N depth (fst st1, {})"
        unfolding dfsPre_def
        using fin closure ok1 fuel card_unvisited_mono[OF fin grow] by auto
      from Cons.prems(2) have "set rest \<subseteq> N" by simp
      from Cons.IH[OF pre1 this]
      obtain b where b: "hasCycles_loop depth adj rest (fst st1, {}) = Some b"
        "if b then \<exists>x. (x, x) \<in> ?R\<^sup>+
         else \<exists>vis'. fst st1 \<union> set rest \<subseteq> vis' \<and> finishedOk ?R vis'"
        by blast
      have run': "dfs depth adj nodeId (vis, {}) = Some (False, (fst st1, {}))"
        using run notfound st1 by simp
      have eq: "hasCycles_loop depth adj (nodeId # rest) (vis, {})
              = hasCycles_loop depth adj rest (fst st1, {})"
        using False run' by simp
      show ?thesis
      proof (cases b)
        case True
        with b eq show ?thesis by (intro exI[of _ True]) simp
      next
        case False
        with b obtain vis' where v: "fst st1 \<union> set rest \<subseteq> vis'" "finishedOk ?R vis'" by auto
        then have "vis \<union> set (nodeId # rest) \<subseteq> vis'" using grow nb1 by auto
        with v(2) False b(1) eq show ?thesis by (intro exI[of _ False]) auto
      qed
    qed
  qed
qed

lemma graphOf_neighbors_any:
  assumes "distinct (map docId wos)"
  shows "neighborsOf (adjacencyList (graphOf wos)) p
           = (if p \<in> docId ` set wos then childrenOf wos p else [])"
proof (cases "p \<in> docId ` set wos")
  case True
  then obtain w where "w \<in> set wos" "docId w = p" by auto
  with graphOf_neighbors[OF assms this(1)] True show ?thesis by simp
next
  case False
  then have "map_of (adjacencyList (graphOf wos)) p = None"
    using map_of_mapped_None[of p docId wos "\<lambda>w. childrenOf wos (docId w)"]
    by (simp add: graphOf_def)
  with False show ?thesis by (simp add: neighborsOf_def)
qed

lemma dependencyEdges_member:
  "(p, c) \<in> dependencyEdges wos
     \<longleftrightarrow> (\<exists>w \<in> set wos. docId w = c \<and> p \<in> set (dependsOnWorkOrderIds w))"
  by (auto simp: dependencyEdges_def)

lemma graphOf_edges:
  assumes d: "distinct (map docId wos)" and p: "parentsExist wos"
  shows "edgesOf (adjacencyList (graphOf wos)) = dependencyEdges wos"
proof -
  have "(a, c) \<in> edgesOf (adjacencyList (graphOf wos)) \<longleftrightarrow> (a, c) \<in> dependencyEdges wos" for a c
  proof (cases "a \<in> docId ` set wos")
    case True
    then show ?thesis
      by (simp add: edgesOf_def graphOf_neighbors_any[OF d] childrenOf_member
          dependencyEdges_member)
  next
    case False
    with p have "(a, c) \<notin> dependencyEdges wos"
      by (auto simp: dependencyEdges_member parentsExist_iff)
    with False show ?thesis
      by (simp add: edgesOf_def graphOf_neighbors_any[OF d])
  qed
  then show ?thesis by auto
qed

text \<open>\<^verbatim>\<open>hasCycles\<close> on a built graph: the bounded recursion returns, and says
  whether the dependency relation has a cycle.\<close>

lemma hasCycles_returns:
  assumes d: "distinct (map docId wos)" and p: "parentsExist wos"
  shows "hasCycles (graphOf wos) = Some (\<not> acyclic (dependencyEdges wos))"
proof -
  let ?adj = "adjacencyList (graphOf wos)"
  let ?N = "docId ` set wos"
  let ?R = "edgesOf ?adj"
  have closure: "set (neighborsOf ?adj q) \<subseteq> ?N" for q
    using childrenOf_subset[of wos q] by (auto simp: graphOf_neighbors_any[OF d])
  have "card ?N \<le> card (set wos)" by (rule card_image_le) simp
  also have "\<dots> \<le> length wos" by (rule card_length)
  finally have pre: "dfsPre ?adj ?N (Suc (length wos)) ({}, {})"
    using closure by (simp add: dfsPre_def finishedOk_def)
  have nodes: "map fst (workOrders (graphOf wos)) = map docId wos"
    by (simp add: graphOf_def comp_def)
  from hasCycles_loop_correct[OF pre, of "map docId wos"]
  obtain b where b: "hasCycles_loop (Suc (length wos)) ?adj (map docId wos) ({}, {}) = Some b"
    "if b then \<exists>x. (x, x) \<in> ?R\<^sup>+
     else \<exists>vis'. {} \<union> set (map docId wos) \<subseteq> vis' \<and> finishedOk ?R vis'"
    by auto
  have len: "length (workOrders (graphOf wos)) = length wos" by (simp add: graphOf_def)
  have hc: "hasCycles (graphOf wos) = Some b"
    unfolding hasCycles_def nodes len using b(1) by simp
  have "b \<longleftrightarrow> \<not> acyclic ?R"
  proof (cases b)
    case True
    with b(2) show ?thesis by (auto simp: acyclic_def)
  next
    case False
    with b(2) obtain vis' where v: "?N \<subseteq> vis'" "finishedOk ?R vis'" by auto
    have "(x, x) \<notin> ?R\<^sup>+" for x
    proof (cases "x \<in> ?N")
      case True
      with v show ?thesis by (auto simp: finishedOk_def)
    next
      case out: False
      show ?thesis
      proof
        assume "(x, x) \<in> ?R\<^sup>+"
        then obtain c where "(x, c) \<in> ?R" by (auto dest: tranclD)
        with out show False by (simp add: edgesOf_def graphOf_neighbors_any[OF d])
      qed
    qed
    with False show ?thesis by (simp add: acyclic_def)
  qed
  with hc show ?thesis unfolding graphOf_edges[OF d p] by simp
qed

subsection \<open>C10: a parent id named twice\<close>

text \<open>
  C10 (as stated, refuted). In \<open>repeatedIdParents\<close> two orders have the id wo-x and
  each names an existing parent twice. The dependency relation is acyclic and
  \<^verbatim>\<open>hasCycles\<close> returns false, and \<^verbatim>\<open>topologicalSort\<close> does not fail: it returns
  wo-y, wo-z and the second wo-x, whose in-degree of 2 is brought to 0 by the
  edges of the two orders with its id.
\<close>

theorem C10_repeated_id_counterexample:
  "\<not> distinct (dependsOnWorkOrderIds (repeatedIdParents ! 0))
   \<and> \<not> distinct (dependsOnWorkOrderIds (repeatedIdParents ! 3))
   \<and> set (dependsOnWorkOrderIds (repeatedIdParents ! 0)) \<subseteq> docId ` set repeatedIdParents
   \<and> set (dependsOnWorkOrderIds (repeatedIdParents ! 3)) \<subseteq> docId ` set repeatedIdParents
   \<and> acyclic (dependencyEdges repeatedIdParents)
   \<and> graphReport repeatedIdParents
       = Inr (Some False,
              Inr [repeatedIdParents ! 1, repeatedIdParents ! 2, repeatedIdParents ! 3])"
proof -
  have edges: "dependencyEdges repeatedIdParents = {(''wo-y'', ''wo-x''), (''wo-z'', ''wo-x'')}"
    by (auto simp: dependencyEdges_def repeatedIdParents_def mkOrder_def)
  have acyc: "acyclic (dependencyEdges repeatedIdParents)"
    unfolding edges by (simp add: acyclic_insert rtrancl_insert) (simp add: acyclic_def)
  have lists: "\<not> distinct (dependsOnWorkOrderIds (repeatedIdParents ! 0))
   \<and> \<not> distinct (dependsOnWorkOrderIds (repeatedIdParents ! 3))
   \<and> set (dependsOnWorkOrderIds (repeatedIdParents ! 0)) \<subseteq> docId ` set repeatedIdParents
   \<and> set (dependsOnWorkOrderIds (repeatedIdParents ! 3)) \<subseteq> docId ` set repeatedIdParents"
    by (simp add: repeatedIdParents_def mkOrder_def)
  have run: "graphReport repeatedIdParents
       = Inr (Some False,
              Inr [repeatedIdParents ! 1, repeatedIdParents ! 2, repeatedIdParents ! 3])"
    by code_simp
  from lists acyc run show ?thesis by simp
qed

text \<open>
  C10 (amended). Let the work orders have pairwise different ids and let the graph be built
  (every parent id exists). If the dependency relation is acyclic and some order
  names one parent id more than once, then \<^verbatim>\<open>hasCycles\<close> returns false and
  \<^verbatim>\<open>topologicalSort\<close> fails with the error of its final count check ("Cycle
  detected in dependency graph"): the stored in-degree counts the repeated entry,
  the adjacency set holds the edge once, and the order is never emitted.
\<close>

theorem C10_duplicate_parent_breaks_sort:
  assumes ids: "distinct (map docId wos)"
    and built: "buildGraph wos = Inr g"
    and acyc: "acyclic (dependencyEdges wos)"
    and dup: "w \<in> set wos" "\<not> distinct (dependsOnWorkOrderIds w)"
  shows "hasCycles g = Some False \<and> topologicalSort g = Inl CycleDetected"
proof -
  note g = buildGraph_Inr[OF ids built]
  have hc: "hasCycles (graphOf wos) = Some False"
    using hasCycles_returns[OF ids g(2)] acyc by simp
  from topologicalSort_duplicate_parent[OF ids hc dup] hc show ?thesis
    unfolding g(1) by simp
qed

theorem C10_duplicate_parent_witness:
  "distinct (map docId repeatedParent)
   \<and> buildGraph repeatedParent = Inr (graphOf repeatedParent)
   \<and> acyclic (dependencyEdges repeatedParent)
   \<and> \<not> distinct (dependsOnWorkOrderIds (repeatedParent ! 2))
   \<and> hasCycles (graphOf repeatedParent) = Some False
   \<and> topologicalSort (graphOf repeatedParent) = Inl CycleDetected"
proof -
  have ids: "distinct (map docId repeatedParent)" by code_simp
  have built: "buildGraph repeatedParent = Inr (graphOf repeatedParent)" by code_simp
  have edges: "dependencyEdges repeatedParent
                 = {(''wo-a'', ''wo-b''), (''wo-b'', ''wo-c''), (''wo-a'', ''wo-c'')}"
    by (auto simp: dependencyEdges_def repeatedParent_def mkOrder_def)
  have acyc: "acyclic (dependencyEdges repeatedParent)"
    unfolding edges by (simp add: acyclic_insert rtrancl_insert) (simp add: acyclic_def)
  have mem: "repeatedParent ! 2 \<in> set repeatedParent" by (simp add: repeatedParent_def)
  have dup: "\<not> distinct (dependsOnWorkOrderIds (repeatedParent ! 2))"
    by (simp add: repeatedParent_def mkOrder_def)
  from C10_duplicate_parent_breaks_sort[OF ids built acyc mem dup] ids built acyc dup
  show ?thesis by simp
qed

subsection \<open>C7: maintenance orders pass through\<close>

lemma rescheduled_fields:
  assumes "rescheduled w u"
  shows "docId u = docId w" and "dependsOnWorkOrderIds u = dependsOnWorkOrderIds w"
    and "isMaintenance u = isMaintenance w" and "workCenterId u = workCenterId w"
    and "durationMinutes u = durationMinutes w"
proof -
  from assms have u: "u = w\<lparr>startDate := startDate u, endDate := endDate u\<rparr>"
    by (simp add: rescheduled_def)
  show "docId u = docId w" by (subst u) simp
  show "dependsOnWorkOrderIds u = dependsOnWorkOrderIds w" by (subst u) simp
  show "isMaintenance u = isMaintenance w" by (subst u) simp
  show "workCenterId u = workCenterId w" by (subst u) simp
  show "durationMinutes u = durationMinutes w" by (subst u) simp
qed

lemma rescheduled_refl: "rescheduled w w"
  by (simp add: rescheduled_def)

lemma rescheduled_update:
  "\<not> isMaintenance w \<Longrightarrow> rescheduled w (w\<lparr>startDate := s, endDate := e\<rparr>)"
  by (simp add: rescheduled_def)

text \<open>The scheduling loop appends one entry per work order, in order: the order
  itself if it is maintenance, a rescheduled copy otherwise.\<close>

lemma scheduleLoop_shape:
  "scheduleLoop now dag wcMap ws (updated, chs, avail) = Inr (updated', chs', avail') \<Longrightarrow>
   \<exists>us. updated' = updated @ us \<and> list_all2 rescheduled ws us"
proof (induction ws arbitrary: updated chs avail)
  case Nil
  then show ?case by simp
next
  case (Cons workOrder rest)
  show ?case
  proof (cases "isMaintenance workOrder")
    case True
    with Cons.prems
    have "scheduleLoop now dag wcMap rest (updated @ [workOrder], chs, avail)
            = Inr (updated', chs', avail')" by simp
    from Cons.IH[OF this] obtain us where
      "updated' = (updated @ [workOrder]) @ us" "list_all2 rescheduled rest us" by blast
    then have "updated' = updated @ (workOrder # us)
               \<and> list_all2 rescheduled (workOrder # rest) (workOrder # us)"
      by (simp add: rescheduled_refl)
    then show ?thesis by blast
  next
    case False
    from scheduleLoop_step[OF Cons.prems False]
    obtain workCenter parents newStart newEnd where
      "map_of wcMap (workCenterId workOrder) = Some workCenter"
      "getParents dag (docId workOrder) = Inr parents"
      "getEarliestStartTime (resolveParentEndTimes updated parents)
         (availableFrom now avail workCenter) (shifts workCenter) = Inr newStart"
      "calculateEndDate newStart (durationMinutes workOrder) (shifts workCenter)
         (maintenanceWindows workCenter) = Inr newEnd"
      and run: "scheduleLoop now dag wcMap rest
             (updated @ [workOrder\<lparr>startDate := newStart, endDate := newEnd\<rparr>],
              chs @ changeEntries workOrder newStart newEnd,
              AList.update (wcDocId workCenter) newEnd avail) = Inr (updated', chs', avail')"
      by blast
    let ?new = "workOrder\<lparr>startDate := newStart, endDate := newEnd\<rparr>"
    from Cons.IH[OF run] obtain us where
      "updated' = (updated @ [?new]) @ us" "list_all2 rescheduled rest us" by blast
    then have "updated' = updated @ (?new # us)
               \<and> list_all2 rescheduled (workOrder # rest) (?new # us)"
      using rescheduled_update[OF False] by simp
    then show ?thesis by blast
  qed
qed

text \<open>A reflow that returns work orders went through every step.\<close>

lemma reflow_success:
  assumes "updatedWorkOrders (reflow clock input) \<noteq> []"
  shows "\<exists>dag ordered avail chs avail' vs.
           buildGraph (inWorkOrders input) = Inr dag
         \<and> hasCycles dag = Some False
         \<and> topologicalSort dag = Inr ordered
         \<and> initAvailability clock 0 (inWorkCenters input) [] = Inr avail
         \<and> scheduleLoop (clock (length (inWorkCenters input))) dag
              (mkWorkCenterMap (inWorkCenters input)) ordered ([], [], avail)
              = Inr (updatedWorkOrders (reflow clock input), chs, avail')
         \<and> validate (updatedWorkOrders (reflow clock input)) (inWorkCenters input) = Inr vs
         \<and> reflow clock input
              = \<lparr>updatedWorkOrders = updatedWorkOrders (reflow clock input), changes = chs,
                 isValid = (vs = []), violations = map ConstraintMessage vs\<rparr>"
  using assms
  by (auto simp: reflow_def reflowBody_def split: sum.splits option.splits bool.splits)

lemma reflowBody_Inr:
  assumes "reflowBody clock input = Inr r"
  shows "\<exists>dag. buildGraph (inWorkOrders input) = Inr dag
         \<and> ((hasCycles dag = Some True
              \<and> r = \<lparr>updatedWorkOrders = [], changes = [], isValid = False,
                      violations = [FailureMessage CircularDependency]\<rparr>)
            \<or> (hasCycles dag = Some False
              \<and> (\<exists>ordered avail updated chs avail' vs.
                    topologicalSort dag = Inr ordered
                  \<and> initAvailability clock 0 (inWorkCenters input) [] = Inr avail
                  \<and> scheduleLoop (clock (length (inWorkCenters input))) dag
                       (mkWorkCenterMap (inWorkCenters input)) ordered ([], [], avail)
                       = Inr (updated, chs, avail')
                  \<and> validate updated (inWorkCenters input) = Inr vs
                  \<and> r = \<lparr>updatedWorkOrders = updated, changes = chs, isValid = (vs = []),
                          violations = map ConstraintMessage vs\<rparr>)))"
  using assms
  by (auto simp: reflowBody_def split: sum.splits option.splits bool.splits)

text \<open>A valid result without work orders is the result for an input without work
  orders.\<close>

lemma reflow_valid_empty:
  assumes ids: "distinct (map docId (inWorkOrders input))"
    and valid: "isValid (reflow clock input)"
    and empty: "updatedWorkOrders (reflow clock input) = []"
  shows "inWorkOrders input = []" and "changes (reflow clock input) = []"
proof -
  from valid obtain r where body: "reflowBody clock input = Inr r"
    by (cases "reflowBody clock input") (simp_all add: reflow_def)
  then have r: "reflow clock input = r" by (simp add: reflow_def)
  from reflowBody_Inr[OF body] valid[unfolded r] obtain dag ordered avail updated chs avail' vs
    where built: "buildGraph (inWorkOrders input) = Inr dag"
    and sorted: "topologicalSort dag = Inr ordered"
    and run0: "scheduleLoop (clock (length (inWorkCenters input))) dag
              (mkWorkCenterMap (inWorkCenters input)) ordered ([], [], avail)
              = Inr (updated, chs, avail')"
    and res: "r = \<lparr>updatedWorkOrders = updated, changes = chs, isValid = (vs = []),
                     violations = map ConstraintMessage vs\<rparr>"
    by auto
  have upd: "updatedWorkOrders (reflow clock input) = updated"
    and chs: "changes (reflow clock input) = chs"
    unfolding r res by simp_all
  note run = run0[folded upd]
  note g = buildGraph_Inr[OF ids built]
  note t = topologicalSort_Inr[OF ids sorted[unfolded g(1)]]
  from scheduleLoop_shape[OF run] empty have none: "ordered = []" by simp
  with t(1) show "inWorkOrders input = []" by simp
  from run none have "chs = []" by simp
  with chs show "changes (reflow clock input) = []" by simp
qed

lemma reflow_success_ordered:
  assumes ids: "distinct (map docId (inWorkOrders input))"
    and ok: "updatedWorkOrders (reflow clock input) \<noteq> []"
  shows "\<exists>ordered. mset ordered = mset (inWorkOrders input)
           \<and> distinct (map docId ordered)
           \<and> (\<forall>i < length ordered.
                 set (dependsOnWorkOrderIds (ordered ! i)) \<subseteq> docId ` set (take i ordered))
           \<and> list_all2 rescheduled ordered (updatedWorkOrders (reflow clock input))"
proof -
  from reflow_success[OF ok] obtain dag ordered avail chs avail' where
    built: "buildGraph (inWorkOrders input) = Inr dag"
    and sorted: "topologicalSort dag = Inr ordered"
    and run: "scheduleLoop (clock (length (inWorkCenters input))) dag
              (mkWorkCenterMap (inWorkCenters input)) ordered ([], [], avail)
              = Inr (updatedWorkOrders (reflow clock input), chs, avail')"
    by blast
  note g = buildGraph_Inr[OF ids built]
  note t = topologicalSort_Inr[OF ids sorted[unfolded g(1)]]
  from scheduleLoop_shape[OF run]
  have "list_all2 rescheduled ordered (updatedWorkOrders (reflow clock input))" by simp
  with t(1,2,3) show ?thesis by blast
qed

text \<open>
  C7 (as stated, refuted). In \<open>repeatedIdMaintenance\<close> a maintenance order and a
  production order have the same id. The reflow is valid and returns the
  production order only: the graph keeps the last order of an id, and the
  maintenance order is not in \<^verbatim>\<open>updatedWorkOrders\<close>.
\<close>

theorem C7_repeated_id_counterexample:
  "isMaintenance (inWorkOrders repeatedIdMaintenance ! 0)
   \<and> isValid (reflow earlyClock repeatedIdMaintenance)
   \<and> updatedWorkOrders (reflow earlyClock repeatedIdMaintenance)
       = [inWorkOrders repeatedIdMaintenance ! 1]
   \<and> \<not> isMaintenance (inWorkOrders repeatedIdMaintenance ! 1)
   \<and> inWorkOrders repeatedIdMaintenance ! 0
       \<notin> set (updatedWorkOrders (reflow earlyClock repeatedIdMaintenance))"
  by code_simp

text \<open>
  C7 (amended). Let the work orders of the input have pairwise different ids. When
  \<^verbatim>\<open>reflow\<close> succeeds (its result is valid or has work orders, which the result
  of a failure is not and has not), every maintenance order of the input is an element of
  \<^verbatim>\<open>updatedWorkOrders\<close> as it is, with every field unchanged, and it is the only
  entry with its id; the other work orders, the shifts and the maintenance
  windows of the input are arbitrary.
\<close>

theorem C7_maintenance_orders_unchanged:
  assumes ids: "distinct (map docId (inWorkOrders input))"
    and success: "isValid (reflow clock input) \<or> updatedWorkOrders (reflow clock input) \<noteq> []"
    and w: "w \<in> set (inWorkOrders input)" and m: "isMaintenance w"
  shows "w \<in> set (updatedWorkOrders (reflow clock input))
         \<and> (\<forall>u \<in> set (updatedWorkOrders (reflow clock input)). docId u = docId w \<longrightarrow> u = w)"
proof -
  let ?U = "updatedWorkOrders (reflow clock input)"
  have ok: "?U \<noteq> []"
  proof
    assume none: "?U = []"
    with success have "isValid (reflow clock input)" by simp
    from reflow_valid_empty(1)[OF ids this none] w show False by simp
  qed
  from reflow_success_ordered[OF ids ok] obtain ordered where
    perm: "mset ordered = mset (inWorkOrders input)"
    and dist: "distinct (map docId ordered)"
    and rel: "list_all2 rescheduled ordered ?U"
    by blast
  from perm w have "w \<in> set ordered" by (metis mset_eq_setD)
  then obtain i where i: "i < length ordered" "ordered ! i = w" by (auto simp: in_set_conv_nth)
  have len: "length ?U = length ordered" using rel by (simp add: list_all2_lengthD)
  have at: "rescheduled (ordered ! j) (?U ! j)" if "j < length ordered" for j
    using rel that by (simp add: list_all2_nthD)
  from at[OF i(1)] i(2) m have Ui: "?U ! i = w" by (simp add: rescheduled_def)
  then have "w \<in> set ?U" using i(1) len by (metis nth_mem)
  moreover have "u = w" if u: "u \<in> set ?U" "docId u = docId w" for u
  proof -
    from u(1) obtain j where j: "j < length ?U" "?U ! j = u" by (auto simp: in_set_conv_nth)
    with len have j': "j < length ordered" by simp
    have "docId (ordered ! j) = docId (ordered ! i)"
      using rescheduled_fields(1)[OF at[OF j']] j(2) u(2) i(2) by simp
    moreover have "(map docId ordered ! j = map docId ordered ! i) = (j = i)"
      by (rule nth_eq_iff_index_eq[OF dist]) (simp_all add: i(1) j')
    ultimately have "j = i" using i(1) j' by simp
    with j(2) Ui show ?thesis by simp
  qed
  ultimately show ?thesis by blast
qed

theorem C7_maintenance_orders_witness:
  "distinct (map docId (inWorkOrders maintenanceInput))
   \<and> updatedWorkOrders (reflow (\<lambda>i. wednesday + 3 * HOUR) maintenanceInput) \<noteq> []
   \<and> inWorkOrders maintenanceInput ! 1 \<in> set (inWorkOrders maintenanceInput)
   \<and> isMaintenance (inWorkOrders maintenanceInput ! 1)
   \<and> inWorkOrders maintenanceInput ! 1
       \<in> set (updatedWorkOrders (reflow (\<lambda>i. wednesday + 3 * HOUR) maintenanceInput))"
proof -
  have ids: "distinct (map docId (inWorkOrders maintenanceInput))" by code_simp
  have ok: "updatedWorkOrders (reflow (\<lambda>i. wednesday + 3 * HOUR) maintenanceInput) \<noteq> []"
    by code_simp
  have w: "inWorkOrders maintenanceInput ! 1 \<in> set (inWorkOrders maintenanceInput)"
    by (simp add: maintenanceInput_def)
  have m: "isMaintenance (inWorkOrders maintenanceInput ! 1)"
    by (simp add: maintenanceInput_def mkOrder_def)
  from C7_maintenance_orders_unchanged[OF ids disjI2[OF ok] w m] ids ok w m
  show ?thesis by simp
qed

subsection \<open>C4: children start after their parents end\<close>

lemma find_unique:
  "distinct (map f xs) \<Longrightarrow> x \<in> set xs \<Longrightarrow> find (\<lambda>y. f y = f x) xs = Some x"
  by (induction xs) (auto simp: image_iff)

lemma getParents_member:
  assumes "getParents dag k = Inr parents"
    and "map_of (workOrders dag) k = Some w"
    and "pid \<in> set (dependsOnWorkOrderIds w)"
    and "map_of (workOrders dag) pid = Some p0"
  shows "p0 \<in> set parents"
  using assms by (force simp: getParents_def List.map_filter_def split: option.splits)

lemma getParents_defined:
  "getParents dag k = Inr parents \<Longrightarrow> \<exists>w. map_of (workOrders dag) k = Some w"
  by (auto simp: getParents_def split: option.splits)

lemma resolveParentEndTimes_member:
  assumes "distinct (map docId updated)" and "p \<in> set updated"
    and "p0 \<in> set parents" and "docId p0 = docId p"
  shows "endDate p \<in> set (resolveParentEndTimes updated parents)"
proof -
  have "find (\<lambda>wo. docId wo = docId p0) updated = Some p"
    using find_unique[OF assms(1,2)] assms(4) by simp
  then have "endDate p \<in> set (map (\<lambda>p. case find (\<lambda>wo. docId wo = docId p) updated of
                        Some u \<Rightarrow> endDate u | None \<Rightarrow> endDate p) parents)"
    using assms(3) by force
  then show ?thesis by (auto simp: resolveParentEndTimes_def Let_def)
qed

text \<open>Second invariant of the scheduling loop: a scheduled order that is not
  maintenance starts no earlier than each of its parents scheduled before it
  ends.\<close>

lemma scheduleLoop_dependencies:
  assumes dagkeys: "\<And>k p. map_of (workOrders dag) k = Some p \<Longrightarrow> docId p = k"
  shows "scheduleLoop now dag wcMap ws (updated, chs, avail) = Inr (updated', chs', avail') \<Longrightarrow>
         distinct (map docId (updated @ ws)) \<Longrightarrow>
         (\<forall>x \<in> set (updated @ ws). \<exists>x0. map_of (workOrders dag) (docId x) = Some x0
              \<and> dependsOnWorkOrderIds x0 = dependsOnWorkOrderIds x) \<Longrightarrow>
         sorted_wrt afterParent updated \<Longrightarrow>
         sorted_wrt afterParent updated'"
proof (induction ws arbitrary: updated chs avail)
  case Nil
  then show ?case by simp
next
  case (Cons workOrder rest)
  show ?case
  proof (cases "isMaintenance workOrder")
    case True
    with Cons.prems(1)
    have run: "scheduleLoop now dag wcMap rest (updated @ [workOrder], chs, avail)
                 = Inr (updated', chs', avail')" by simp
    have 1: "distinct (map docId ((updated @ [workOrder]) @ rest))" using Cons.prems(2) by simp
    have 2: "\<forall>x \<in> set ((updated @ [workOrder]) @ rest).
               \<exists>x0. map_of (workOrders dag) (docId x) = Some x0
                 \<and> dependsOnWorkOrderIds x0 = dependsOnWorkOrderIds x"
      using Cons.prems(3) by simp
    have "\<forall>p \<in> set updated. afterParent p workOrder"
      using True by (simp add: afterParent_def)
    with Cons.prems(4) have 3: "sorted_wrt afterParent (updated @ [workOrder])"
      by (simp add: sorted_wrt_append)
    from Cons.IH[OF run 1 2 3] show ?thesis .
  next
    case False
    from scheduleLoop_step[OF Cons.prems(1) False]
    obtain workCenter parents newStart newEnd where
      wc: "map_of wcMap (workCenterId workOrder) = Some workCenter"
      and par: "getParents dag (docId workOrder) = Inr parents"
      and start: "getEarliestStartTime (resolveParentEndTimes updated parents)
             (availableFrom now avail workCenter) (shifts workCenter) = Inr newStart"
      and fin: "calculateEndDate newStart (durationMinutes workOrder) (shifts workCenter)
             (maintenanceWindows workCenter) = Inr newEnd"
      and run: "scheduleLoop now dag wcMap rest
             (updated @ [workOrder\<lparr>startDate := newStart, endDate := newEnd\<rparr>],
              chs @ changeEntries workOrder newStart newEnd,
              AList.update (wcDocId workCenter) newEnd avail) = Inr (updated', chs', avail')"
      by blast
    let ?new = "workOrder\<lparr>startDate := newStart, endDate := newEnd\<rparr>"
    have du: "distinct (map docId updated)" using Cons.prems(2) by simp
    from Cons.prems(3) obtain w0 where
      w0: "map_of (workOrders dag) (docId workOrder) = Some w0"
      and deps0: "dependsOnWorkOrderIds w0 = dependsOnWorkOrderIds workOrder" by auto
    have before: "afterParent p ?new" if p: "p \<in> set updated" for p
    proof (cases "docId p \<in> set (dependsOnWorkOrderIds workOrder)")
      case True
      from Cons.prems(3) p obtain p0 where p0: "map_of (workOrders dag) (docId p) = Some p0"
        by fastforce
      have "p0 \<in> set parents"
        using getParents_member[OF par w0 _ p0] True deps0 by simp
      from resolveParentEndTimes_member[OF du p this dagkeys[OF p0]]
        getEarliestStartTime_ge(2)[OF start]
      have "endDate p \<le> newStart" by blast
      then show ?thesis by (simp add: afterParent_def)
    next
      case False
      then show ?thesis by (simp add: afterParent_def)
    qed
    have 1: "distinct (map docId ((updated @ [?new]) @ rest))" using Cons.prems(2) by simp
    have 2: "\<forall>x \<in> set ((updated @ [?new]) @ rest).
               \<exists>x0. map_of (workOrders dag) (docId x) = Some x0
                 \<and> dependsOnWorkOrderIds x0 = dependsOnWorkOrderIds x"
      using Cons.prems(3) by simp
    have 3: "sorted_wrt afterParent (updated @ [?new])"
      using Cons.prems(4) before by (simp add: sorted_wrt_append)
    from Cons.IH[OF run 1 2 3] show ?thesis .
  qed
qed


lemma reflow_success_run:
  assumes ids: "distinct (map docId (inWorkOrders input))"
    and ok: "updatedWorkOrders (reflow clock input) \<noteq> []"
  shows "\<exists>ordered avail chs avail'.
           parentsExist (inWorkOrders input)
         \<and> topologicalSort (graphOf (inWorkOrders input)) = Inr ordered
         \<and> initAvailability clock 0 (inWorkCenters input) [] = Inr avail
         \<and> scheduleLoop (clock (length (inWorkCenters input))) (graphOf (inWorkOrders input))
              (mkWorkCenterMap (inWorkCenters input)) ordered ([], [], avail)
              = Inr (updatedWorkOrders (reflow clock input), chs, avail')
         \<and> changes (reflow clock input) = chs"
proof -
  from reflow_success[OF ok] obtain dag ordered avail chs avail' vs where
    built: "buildGraph (inWorkOrders input) = Inr dag"
    and sorted: "topologicalSort dag = Inr ordered"
    and init: "initAvailability clock 0 (inWorkCenters input) [] = Inr avail"
    and run: "scheduleLoop (clock (length (inWorkCenters input))) dag
              (mkWorkCenterMap (inWorkCenters input)) ordered ([], [], avail)
              = Inr (updatedWorkOrders (reflow clock input), chs, avail')"
    and res: "reflow clock input
              = \<lparr>updatedWorkOrders = updatedWorkOrders (reflow clock input), changes = chs,
                 isValid = (vs = []), violations = map ConstraintMessage vs\<rparr>"
    by blast
  note g = buildGraph_Inr[OF ids built]
  have "changes (reflow clock input) = chs" by (subst res) simp
  with g sorted init run show ?thesis by auto
qed

text \<open>
  C4 (as stated, refuted). In \<open>repeatedIdEarly\<close> the id wo-x is used twice. The
  dependency relation is acyclic and the reflow returns four work orders, but
  wo-x, which depends on wo-p, is returned from 09:00 to 10:00 and wo-p from
  10:00 to 11:00: wo-x is scheduled first, from the end that wo-p had in the
  input, because the graph still holds the edge of the first wo-x.
\<close>

theorem C4_repeated_id_counterexample:
  "acyclic (dependencyEdges (inWorkOrders repeatedIdEarly))
   \<and> length (updatedWorkOrders (reflow earlyClock repeatedIdEarly)) = 4
   \<and> \<not> isMaintenance (updatedWorkOrders (reflow earlyClock repeatedIdEarly) ! 2)
   \<and> docId (updatedWorkOrders (reflow earlyClock repeatedIdEarly) ! 3)
       \<in> set (dependsOnWorkOrderIds (updatedWorkOrders (reflow earlyClock repeatedIdEarly) ! 2))
   \<and> startDate (updatedWorkOrders (reflow earlyClock repeatedIdEarly) ! 2) = wednesday + 9 * HOUR
   \<and> endDate (updatedWorkOrders (reflow earlyClock repeatedIdEarly) ! 3) = wednesday + 11 * HOUR
   \<and> startDate (updatedWorkOrders (reflow earlyClock repeatedIdEarly) ! 2)
       < endDate (updatedWorkOrders (reflow earlyClock repeatedIdEarly) ! 3)"
proof -
  have edges: "dependencyEdges (inWorkOrders repeatedIdEarly)
                 = {(''wo-q'', ''wo-x''), (''wo-r'', ''wo-p''), (''wo-p'', ''wo-x'')}"
    by (auto simp: dependencyEdges_def repeatedIdEarly_def mkOrder_def)
  have acyc: "acyclic (dependencyEdges (inWorkOrders repeatedIdEarly))"
    unfolding edges by (simp add: acyclic_insert rtrancl_insert) (simp add: acyclic_def)
  have run: "length (updatedWorkOrders (reflow earlyClock repeatedIdEarly)) = 4
   \<and> \<not> isMaintenance (updatedWorkOrders (reflow earlyClock repeatedIdEarly) ! 2)
   \<and> docId (updatedWorkOrders (reflow earlyClock repeatedIdEarly) ! 3)
       \<in> set (dependsOnWorkOrderIds (updatedWorkOrders (reflow earlyClock repeatedIdEarly) ! 2))
   \<and> startDate (updatedWorkOrders (reflow earlyClock repeatedIdEarly) ! 2) = wednesday + 9 * HOUR
   \<and> endDate (updatedWorkOrders (reflow earlyClock repeatedIdEarly) ! 3) = wednesday + 11 * HOUR
   \<and> startDate (updatedWorkOrders (reflow earlyClock repeatedIdEarly) ! 2)
       < endDate (updatedWorkOrders (reflow earlyClock repeatedIdEarly) ! 3)"
    by code_simp
  from acyc run show ?thesis by simp
qed

text \<open>
  C4 (amended). Let the work orders of the input have pairwise different ids. In the
  \<^verbatim>\<open>updatedWorkOrders\<close> that \<^verbatim>\<open>reflow\<close> returns, every work order that is not
  maintenance starts at or after the end, as returned in the same list, of
  every work order it depends on.
\<close>

theorem C4_children_start_after_parents:
  assumes ids: "distinct (map docId (inWorkOrders input))"
    and u: "u \<in> set (updatedWorkOrders (reflow clock input))" "\<not> isMaintenance u"
    and p: "p \<in> set (updatedWorkOrders (reflow clock input))"
    and dep: "docId p \<in> set (dependsOnWorkOrderIds u)"
  shows "endDate p \<le> startDate u"
proof -
  let ?U = "updatedWorkOrders (reflow clock input)"
  let ?wos = "inWorkOrders input"
  have ok: "?U \<noteq> []" using u(1) by auto
  from reflow_success_run[OF ids ok] obtain ordered avail chs avail' where
    sorted: "topologicalSort (graphOf ?wos) = Inr ordered"
    and run: "scheduleLoop (clock (length (inWorkCenters input))) (graphOf ?wos)
              (mkWorkCenterMap (inWorkCenters input)) ordered ([], [], avail)
              = Inr (?U, chs, avail')"
    by blast
  note t = topologicalSort_Inr[OF ids sorted]
  have rel: "list_all2 rescheduled ordered ?U" using scheduleLoop_shape[OF run] by simp
  have len: "length ?U = length ordered" using rel by (simp add: list_all2_lengthD)
  have at: "rescheduled (ordered ! j) (?U ! j)" if "j < length ordered" for j
    using rel that by (simp add: list_all2_nthD)
  have dagkeys: "docId q = k" if "map_of (workOrders (graphOf ?wos)) k = Some q" for k q
    using that by (auto simp: graphOf_def dest!: map_of_SomeD)
  have nodes: "\<forall>x \<in> set ([] @ ordered). \<exists>x0. map_of (workOrders (graphOf ?wos)) (docId x) = Some x0
                 \<and> dependsOnWorkOrderIds x0 = dependsOnWorkOrderIds x"
  proof
    fix x assume "x \<in> set ([] @ ordered)"
    then have "x \<in> set ?wos" using t(1) by (metis append_Nil mset_eq_setD)
    from graphOf_lookup[OF ids this] show "\<exists>x0. map_of (workOrders (graphOf ?wos)) (docId x) = Some x0
                 \<and> dependsOnWorkOrderIds x0 = dependsOnWorkOrderIds x" by simp
  qed
  have inv: "sorted_wrt afterParent ?U"
    by (rule scheduleLoop_dependencies[OF dagkeys run _ nodes]) (simp_all add: t(2))
  from u(1) obtain j where j: "j < length ?U" "?U ! j = u" by (auto simp: in_set_conv_nth)
  from p obtain i where i: "i < length ?U" "?U ! i = p" by (auto simp: in_set_conv_nth)
  have j': "j < length ordered" and i': "i < length ordered" using i j len by simp_all
  have "docId p \<in> set (dependsOnWorkOrderIds (ordered ! j))"
    using dep rescheduled_fields(2)[OF at[OF j']] j(2) by simp
  with t(3)[OF j'] have "docId p \<in> docId ` set (take j ordered)" by blast
  then obtain i0 where i0: "i0 < j" "docId (ordered ! i0) = docId p"
    using j' by (auto simp: in_set_conv_nth)
  have "docId (ordered ! i) = docId p" using rescheduled_fields(1)[OF at[OF i']] i(2) by simp
  with i0(2) have "map docId ordered ! i0 = map docId ordered ! i" using i0(1) j' i' by simp
  moreover have "(map docId ordered ! i0 = map docId ordered ! i) = (i0 = i)"
    by (rule nth_eq_iff_index_eq[OF t(2)]) (use i0(1) j' i' in simp_all)
  ultimately have "i < j" using i0(1) by simp
  with inv j(1) have "afterParent (?U ! i) (?U ! j)" by (simp add: sorted_wrt_iff_nth_less)
  with i(2) j(2) u(2) dep show ?thesis by (simp add: afterParent_def)
qed

theorem C4_children_start_after_parents_witness:
  "distinct (map docId (inWorkOrders chainInput))
   \<and> updatedWorkOrders (reflow (\<lambda>i. wednesday + 9 * HOUR) chainInput) ! 1
       \<in> set (updatedWorkOrders (reflow (\<lambda>i. wednesday + 9 * HOUR) chainInput))
   \<and> \<not> isMaintenance (updatedWorkOrders (reflow (\<lambda>i. wednesday + 9 * HOUR) chainInput) ! 1)
   \<and> updatedWorkOrders (reflow (\<lambda>i. wednesday + 9 * HOUR) chainInput) ! 0
       \<in> set (updatedWorkOrders (reflow (\<lambda>i. wednesday + 9 * HOUR) chainInput))
   \<and> docId (updatedWorkOrders (reflow (\<lambda>i. wednesday + 9 * HOUR) chainInput) ! 0)
       \<in> set (dependsOnWorkOrderIds
                (updatedWorkOrders (reflow (\<lambda>i. wednesday + 9 * HOUR) chainInput) ! 1))
   \<and> endDate (updatedWorkOrders (reflow (\<lambda>i. wednesday + 9 * HOUR) chainInput) ! 0)
       \<le> startDate (updatedWorkOrders (reflow (\<lambda>i. wednesday + 9 * HOUR) chainInput) ! 1)"
proof -
  let ?U = "updatedWorkOrders (reflow (\<lambda>i. wednesday + 9 * HOUR) chainInput)"
  have ids: "distinct (map docId (inWorkOrders chainInput))" by code_simp
  have len: "length ?U = 3" by code_simp
  have u: "?U ! 1 \<in> set ?U" and p: "?U ! 0 \<in> set ?U" using len by simp_all
  have m: "\<not> isMaintenance (?U ! 1)" by code_simp
  have dep: "docId (?U ! 0) \<in> set (dependsOnWorkOrderIds (?U ! 1))" by code_simp
  from C4_children_start_after_parents[OF ids u m p dep] ids u m p dep show ?thesis by simp
qed

subsection \<open>C6: failures end in an invalid, empty result\<close>








subsection \<open>The order of emission of Kahn's algorithm\<close>

lemma remaining_nonneg: "0 \<le> remaining E c"
proof -
  have "card (set (dependsOnWorkOrderIds c) \<inter> E) \<le> card (set (dependsOnWorkOrderIds c))"
    by (intro card_mono) auto
  also have "\<dots> \<le> length (dependsOnWorkOrderIds c)" by (rule card_length)
  finally show ?thesis by (simp add: remaining_def)
qed

lemma remaining_mono: "E \<subseteq> E' \<Longrightarrow> remaining E' c \<le> remaining E c"
proof -
  assume "E \<subseteq> E'"
  then have "card (set (dependsOnWorkOrderIds c) \<inter> E) \<le> card (set (dependsOnWorkOrderIds c) \<inter> E')"
    by (intro card_mono) auto
  then show ?thesis by (simp add: remaining_def)
qed

lemma readyIn_mono: "E \<subseteq> E' \<Longrightarrow> readyIn E c \<Longrightarrow> readyIn E' c"
  using remaining_mono[of E E' c] remaining_nonneg[of E' c] by (simp add: readyIn_def)

lemma remaining_insert:
  "n \<notin> E \<Longrightarrow> remaining (insert n E) c
     = remaining E c - (if n \<in> set (dependsOnWorkOrderIds c) then 1 else 0)"
proof (cases "n \<in> set (dependsOnWorkOrderIds c)")
  case True
  assume "n \<notin> E"
  from card_emitted_parent(1)[OF True this] True show ?thesis by (simp add: remaining_def)
next
  case False
  then have "set (dependsOnWorkOrderIds c) \<inter> insert n E = set (dependsOnWorkOrderIds c) \<inter> E"
    by auto
  with False show ?thesis by (simp add: remaining_def)
qed

lemma readyIn_iff: "readyIn E c \<longleftrightarrow> set (dependsOnWorkOrderIds c) \<subseteq> E \<and> distinct (dependsOnWorkOrderIds c)"
proof
  assume "readyIn E c"
  then have "int (length (dependsOnWorkOrderIds c))
               - int (card (set (dependsOnWorkOrderIds c) \<inter> E)) = 0"
    by (simp add: readyIn_def remaining_def)
  from all_parents_emitted[OF this]
  show "set (dependsOnWorkOrderIds c) \<subseteq> E \<and> distinct (dependsOnWorkOrderIds c)" by simp
next
  assume a: "set (dependsOnWorkOrderIds c) \<subseteq> E \<and> distinct (dependsOnWorkOrderIds c)"
  then have "set (dependsOnWorkOrderIds c) \<inter> E = set (dependsOnWorkOrderIds c)" by auto
  with a show "readyIn E c" by (simp add: readyIn_def remaining_def distinct_card)
qed

lemma kahnInv_degree:
  "kahnInv wos q deg res \<Longrightarrow> c \<in> set wos \<Longrightarrow>
   map_of deg (docId c) = Some (remaining (docId ` set res) c)"
  using kahnInvD(5) by (simp add: remaining_def)

lemma readyId_iff:
  "distinct (map docId wos) \<Longrightarrow> c \<in> set wos \<Longrightarrow> readyId wos E (docId c) \<longleftrightarrow> readyIn E c"
  using same_id_same_order[of wos] by (auto simp: readyId_def)

lemma sorted_wrt_total: "(\<And>a b. a \<in> set xs \<Longrightarrow> b \<in> set xs \<Longrightarrow> P a b) \<Longrightarrow> sorted_wrt P xs"
  by (induction xs) auto

lemma fifoInv_step:
  assumes d: "distinct (map docId wos)"
    and inv: "kahnInv wos (n # q) deg res"
    and fifo: "fifoInv wos (n # q) res"
    and red: "reduceChildren (childrenOf wos n) deg q = (deg', q')"
    and w: "w \<in> set wos" "docId w = n"
  shows "fifoInv wos q' (res @ [w])"
proof -
  let ?E = "docId ` set res"
  let ?cs = "childrenOf wos n"
  let ?pushed = "filter (\<lambda>c. map_of deg c = Some 1) ?cs"
  let ?old = "map docId res @ n # q"
  note keys = kahnInvD(1)[OF inv] and dist = kahnInvD(4)[OF inv]
    and mem = kahnInvD(6)[OF inv] and qsub = kahnInvD(3)[OF inv] and resw = kahnInvD(2)[OF inv]
  have nE: "n \<notin> ?E" using dist by auto
  have cs_dist: "distinct ?cs" using d by (rule childrenOf_distinct)
  have cs_sub: "set ?cs \<subseteq> fst ` set deg"
  proof -
    have "fst ` set deg = set (map fst deg)" by simp
    also have "\<dots> = docId ` set wos" unfolding keys by simp
    finally show ?thesis using childrenOf_subset[of wos n] by simp
  qed
  from reduceChildren_closed_form[OF cs_dist cs_sub red]
  have q': "q' = q @ ?pushed" by blast
  have list: "map docId (res @ [w]) @ q' = ?old @ ?pushed" using w q' by simp
  have pushed_one: "\<exists>c \<in> set wos. docId c = x \<and> remaining ?E c = 1
                      \<and> n \<in> set (dependsOnWorkOrderIds c)"
    if "x \<in> set ?pushed" for x
  proof -
    from that have x: "x \<in> set ?cs" "map_of deg x = Some 1" by simp_all
    from x(1) obtain c where c: "c \<in> set wos" "docId c = x" "n \<in> set (dependsOnWorkOrderIds c)"
      by (auto simp: childrenOf_member)
    from kahnInv_degree[OF inv c(1)] x(2) c(2) have "remaining ?E c = 1" by simp
    with c show ?thesis by blast
  qed
  have old_ready: "\<exists>c \<in> set wos. docId c = x \<and> remaining ?E c = 0" if "x \<in> set ?old" for x
  proof -
    from that resw qsub obtain c where c: "c \<in> set wos" "docId c = x" by auto
    from that have "docId c \<in> ?E \<union> set (n # q)" using c(2) by auto
    with mem[OF c(1)] kahnInv_degree[OF inv c(1)] have "remaining ?E c = 0" by simp
    with c show ?thesis by blast
  qed
  show ?thesis
    unfolding fifoInv_def list
  proof (intro allI impI)
    fix k assume k: "k \<le> length (res @ [w])"
    let ?Ek = "docId ` set (take k (res @ [w]))"
    show "sorted_wrt (\<lambda>a b. readyId wos ?Ek b \<longrightarrow> readyId wos ?Ek a) (?old @ ?pushed)"
    proof (cases "k \<le> length res")
      case True
      then have tk: "take k (res @ [w]) = take k res" by simp
      have sub: "docId ` set (take k res) \<subseteq> ?E" by (auto dest: in_set_takeD)
      have notready: "\<not> readyId wos (docId ` set (take k res)) x" if "x \<in> set ?pushed" for x
      proof
        assume "readyId wos (docId ` set (take k res)) x"
        then obtain c' where c': "c' \<in> set wos" "docId c' = x"
          "readyIn (docId ` set (take k res)) c'" by (auto simp: readyId_def)
        from pushed_one[OF that] obtain c where c: "c \<in> set wos" "docId c = x"
          "remaining ?E c = 1" by blast
        from same_id_same_order[OF d c'(1) c(1)] c'(2) c(2) have "c' = c" by simp
        with readyIn_mono[OF sub c'(3)] c(3) show False by (simp add: readyIn_def)
      qed
      from fifo True have "sorted_wrt (\<lambda>a b. readyId wos (docId ` set (take k res)) b
                           \<longrightarrow> readyId wos (docId ` set (take k res)) a) ?old"
        by (simp add: fifoInv_def)
      moreover have "sorted_wrt (\<lambda>a b. readyId wos (docId ` set (take k res)) b
                           \<longrightarrow> readyId wos (docId ` set (take k res)) a) ?pushed"
        using notready by (intro sorted_wrt_total) blast
      ultimately show ?thesis
        unfolding tk sorted_wrt_append using notready by blast
    next
      case False
      with k have "k = Suc (length res)" by simp
      then have Ek: "?Ek = insert n ?E" using w by auto
      have ready: "readyId wos (insert n ?E) x" if "x \<in> set (?old @ ?pushed)" for x
      proof (cases "x \<in> set ?old")
        case True
        from old_ready[OF True] obtain c where c: "c \<in> set wos" "docId c = x"
          "remaining ?E c = 0" by blast
        then have "readyIn ?E c" by (simp add: readyIn_def)
        then have "readyIn (insert n ?E) c" by (rule readyIn_mono[rotated]) auto
        with c show ?thesis by (auto simp: readyId_def)
      next
        case False
        with that have "x \<in> set ?pushed" by simp
        from pushed_one[OF this] obtain c where c: "c \<in> set wos" "docId c = x"
          "remaining ?E c = 1" "n \<in> set (dependsOnWorkOrderIds c)" by blast
        with remaining_insert[OF nE, of c] have "readyIn (insert n ?E) c" by (simp add: readyIn_def)
        with c show ?thesis by (auto simp: readyId_def)
      qed
      show ?thesis unfolding Ek using ready by (intro sorted_wrt_total) blast
    qed
  qed
qed


lemma kahnLoop_fifo:
  assumes d: "distinct (map docId wos)"
  shows "kahnInv wos q deg res \<Longrightarrow> fifoInv wos q res \<Longrightarrow>
         fifoInv wos [] (kahnLoop (graphOf wos) q deg res)"
proof (induction "graphOf wos" q deg res rule: kahnLoop.induct)
  case (1 deg result)
  then show ?case by simp
next
  case (2 nodeId queue deg result)
  from kahnInvD(3)[OF "2.prems"(1)] have "nodeId \<in> docId ` set wos" by simp
  then obtain w where w: "w \<in> set wos" "docId w = nodeId" by auto
  obtain deg' queue' where red: "reduceChildren (childrenOf wos nodeId) deg queue = (deg', queue')"
    by (cases "reduceChildren (childrenOf wos nodeId) deg queue") auto
  have look: "map_of (workOrders (graphOf wos)) nodeId = Some w"
    using graphOf_lookup[OF d w(1)] w(2) by simp
  have nb: "neighborsOf (adjacencyList (graphOf wos)) nodeId = childrenOf wos nodeId"
    using graphOf_neighbors[OF d w(1)] w(2) by simp
  have inv': "kahnInv wos queue' deg' (result @ [w])"
    by (rule kahnInv_step[OF d "2.prems"(1) red w])
  have fifo': "fifoInv wos queue' (result @ [w])"
    by (rule fifoInv_step[OF d "2.prems" red w])
  have "kahnLoop (graphOf wos) (nodeId # queue) deg result
          = kahnLoop (graphOf wos) queue' deg' (result @ [w])"
    by (simp add: look nb red)
  moreover have "fifoInv wos [] (kahnLoop (graphOf wos) queue' deg' (result @ [w]))"
    by (rule "2.hyps"[OF _ _ _ inv' fifo']) (simp_all add: look nb red)
  ultimately show ?case by simp
qed

lemma seed_queue:
  "map fst (filter (\<lambda>entry. snd entry = 0) (inDegree (graphOf wos)))
     = map docId (filter (\<lambda>w. dependsOnWorkOrderIds w = []) wos)"
  by (simp add: graphOf_def filter_map comp_def)

lemma readyIn_empty: "readyIn {} c \<longleftrightarrow> dependsOnWorkOrderIds c = []"
  by (auto simp: readyIn_iff)

lemma fifoInv_initial:
  "fifoInv wos (map fst (filter (\<lambda>entry. snd entry = 0) (inDegree (graphOf wos)))) []"
proof -
  have "readyId wos {} x"
    if "x \<in> set (map docId (filter (\<lambda>w. dependsOnWorkOrderIds w = []) wos))" for x
    using that by (auto simp: readyId_def readyIn_empty)
  then show ?thesis
    unfolding fifoInv_def seed_queue by (auto intro!: sorted_wrt_total)
qed

lemma topologicalSort_kahnOrdered:
  assumes d: "distinct (map docId wos)" and sorted: "topologicalSort (graphOf wos) = Inr L"
  shows "kahnOrdered L"
proof -
  let ?res = "kahnLoop (graphOf wos)
                (map fst (filter (\<lambda>entry. snd entry = 0) (inDegree (graphOf wos))))
                (inDegree (graphOf wos)) []"
  note t = topologicalSort_Inr[OF d sorted]
  from sorted t(5) have L: "L = ?res"
    by (auto simp: topologicalSort_def Let_def split: if_splits)
  have fifo: "fifoInv wos [] L"
    unfolding L by (rule kahnLoop_fifo[OF d kahnInv_initial[OF d] fifoInv_initial])
  have sub: "set L \<subseteq> set wos" using t(1) by (metis mset_eq_setD subset_refl)
  have ready: "readyIn (docId ` set (take i L)) (L ! i)" if "i < length L" for i
  proof -
    have "L ! i \<in> set wos" using sub that by (meson nth_mem subsetD)
    from t(3)[OF that] t(4)[OF this] show ?thesis by (simp add: readyIn_iff)
  qed
  have closed: "sorted_wrt (\<lambda>a b. readyIn (docId ` set (take k L)) b
                              \<longrightarrow> readyIn (docId ` set (take k L)) a) L"
    if k: "k \<le> length L" for k
  proof -
    from fifo k have "sorted_wrt (\<lambda>a b. readyId wos (docId ` set (take k L)) b
                           \<longrightarrow> readyId wos (docId ` set (take k L)) a) (map docId L)"
      by (simp add: fifoInv_def)
    then have "sorted_wrt (\<lambda>a b. readyId wos (docId ` set (take k L)) (docId b)
                           \<longrightarrow> readyId wos (docId ` set (take k L)) (docId a)) L"
      by (simp add: sorted_wrt_map)
    then show ?thesis
    proof (rule sorted_wrt_mono_rel[rotated])
      fix a b assume "a \<in> set L" "b \<in> set L"
        and "readyId wos (docId ` set (take k L)) (docId b)
               \<longrightarrow> readyId wos (docId ` set (take k L)) (docId a)"
      then show "readyIn (docId ` set (take k L)) b \<longrightarrow> readyIn (docId ` set (take k L)) a"
        using sub readyId_iff[OF d] by blast
    qed
  qed
  show ?thesis unfolding kahnOrdered_def using t(2) ready closed by blast
qed

text \<open>When the elements with a property come before those without, filtering is
  taking a prefix.\<close>

lemma filter_prefix:
  "sorted_wrt (\<lambda>a b. R b \<longrightarrow> R a) xs \<Longrightarrow> filter R xs = take (length (filter R xs)) xs"
proof (induction xs)
  case Nil
  then show ?case by simp
next
  case (Cons x xs)
  show ?case
  proof (cases "R x")
    case True
    with Cons show ?thesis by simp
  next
    case False
    with Cons.prems have "\<forall>y \<in> set xs. \<not> R y" by auto
    then have "filter R xs = []" by (simp add: filter_empty_conv)
    with False show ?thesis by simp
  qed
qed

lemma filter_split:
  "sorted_wrt (\<lambda>a b. R b \<longrightarrow> R a) xs \<Longrightarrow> (\<And>x. x \<in> set xs \<Longrightarrow> R x \<Longrightarrow> R' x) \<Longrightarrow>
   filter R' xs = filter R xs @ filter (\<lambda>c. R' c \<and> \<not> R c) xs"
proof (induction xs)
  case Nil
  then show ?case by simp
next
  case (Cons x xs)
  show ?case
  proof (cases "R x")
    case True
    with Cons show ?thesis by simp
  next
    case False
    with Cons.prems(1) have none: "\<forall>y \<in> set xs. \<not> R y" by auto
    then have "filter R xs = []" by (simp add: filter_empty_conv)
    moreover have "filter R' xs = filter (\<lambda>c. R' c \<and> \<not> R c) xs"
      using none by (intro filter_cong) auto
    ultimately show ?thesis using False by simp
  qed
qed

lemma kahnOrderedD:
  assumes "kahnOrdered L"
  shows "distinct (map docId L)"
    and "\<And>i. i < length L \<Longrightarrow> readyIn (docId ` set (take i L)) (L ! i)"
    and "\<And>k. k \<le> length L \<Longrightarrow>
           sorted_wrt (\<lambda>a b. readyIn (docId ` set (take k L)) b
                              \<longrightarrow> readyIn (docId ` set (take k L)) a) L"
  using assms unfolding kahnOrdered_def by simp_all

text \<open>One round of Kahn's loop on a list that is in emission order: the emitted
  orders stay a prefix of the list, and emitted and queued ids together are the
  ids of the orders that are ready.\<close>

lemma kahn_fixpoint_step:
  assumes ko: "kahnOrdered M"
    and inv: "kahnInv M (n # q) deg (take k M)" and k: "k \<le> length M"
    and front: "map docId (take k M) @ n # q
                  = map docId (filter (readyIn (docId ` set (take k M))) M)"
    and red: "reduceChildren (childrenOf M n) deg q = (deg', q')"
  shows "k < length M" and "docId (M ! k) = n"
    and "map docId (take (Suc k) M) @ q'
           = map docId (filter (readyIn (docId ` set (take (Suc k) M))) M)"
proof -
  let ?E = "docId ` set (take k M)"
  let ?R = "readyIn ?E"
  note d = kahnOrderedD(1)[OF ko]
  have closed: "sorted_wrt (\<lambda>a b. ?R b \<longrightarrow> ?R a) M" by (rule kahnOrderedD(3)[OF ko k])
  define m where "m = length (filter ?R M)"
  have pre: "filter ?R M = take m M" unfolding m_def by (rule filter_prefix[OF closed])
  have "length (map docId (take k M) @ n # q) = m" unfolding front m_def by simp
  then have m: "m = Suc (k + length q)" using k by simp
  have mle: "m \<le> length M" unfolding m_def by (rule length_filter_le)
  show klt: "k < length M" using m mle by simp
  have "(map docId (take k M) @ n # q) ! k = n" using k by (simp add: nth_append)
  moreover have "map docId (filter ?R M) ! k = docId (M ! k)"
    unfolding pre using m klt by simp
  ultimately show nk: "docId (M ! k) = n" unfolding front by simp
  have w: "M ! k \<in> set M" using klt by simp
  have nE: "n \<notin> ?E"
  proof
    assume "n \<in> ?E"
    then obtain i where i: "i < k" "docId (M ! i) = n"
      using k by (auto simp: in_set_conv_nth)
    with nk have "map docId M ! i = map docId M ! k" using klt by simp
    moreover have "(map docId M ! i = map docId M ! k) = (i = k)"
      by (rule nth_eq_iff_index_eq[OF d]) (use i klt in simp_all)
    ultimately show False using i(1) by simp
  qed
  have E': "docId ` set (take (Suc k) M) = insert n ?E"
    using klt nk by (simp add: take_Suc_conv_app_nth)
  let ?R' = "readyIn (insert n ?E)"
  have cs_dist: "distinct (childrenOf M n)" using d by (rule childrenOf_distinct)
  have cs_sub: "set (childrenOf M n) \<subseteq> fst ` set deg"
  proof -
    have "fst ` set deg = set (map fst deg)" by simp
    also have "\<dots> = docId ` set M" unfolding kahnInvD(1)[OF inv] by simp
    finally show ?thesis using childrenOf_subset[of M n] by simp
  qed
  from reduceChildren_closed_form[OF cs_dist cs_sub red]
  have q': "q' = q @ filter (\<lambda>c. map_of deg c = Some 1) (childrenOf M n)" by blast
  have pushed: "filter (\<lambda>c. map_of deg c = Some 1) (childrenOf M n)
                  = map docId (filter (\<lambda>c. ?R' c \<and> \<not> ?R c) M)"
  proof -
    have "filter (\<lambda>c. map_of deg c = Some 1) (childrenOf M n)
            = map docId (filter (\<lambda>c. n \<in> set (dependsOnWorkOrderIds c)
                                      \<and> map_of deg (docId c) = Some 1) M)"
      by (simp add: childrenOf_def filter_map comp_def conj_commute)
    also have "filter (\<lambda>c. n \<in> set (dependsOnWorkOrderIds c)
                                      \<and> map_of deg (docId c) = Some 1) M
             = filter (\<lambda>c. ?R' c \<and> \<not> ?R c) M"
    proof (rule filter_cong[OF refl])
      fix c assume c: "c \<in> set M"
      have deg: "map_of deg (docId c) = Some (remaining ?E c)"
        using kahnInv_degree[OF inv c] by simp
      show "(n \<in> set (dependsOnWorkOrderIds c) \<and> map_of deg (docId c) = Some 1)
              = (?R' c \<and> \<not> ?R c)"
        unfolding deg readyIn_def remaining_insert[OF nE] by auto
    qed
    finally show ?thesis .
  qed
  have grow: "?R x \<Longrightarrow> ?R' x" for x by (rule readyIn_mono[rotated]) auto
  have "map docId (filter ?R' M)
          = map docId (filter ?R M) @ map docId (filter (\<lambda>c. ?R' c \<and> \<not> ?R c) M)"
    using filter_split[OF closed, of ?R'] grow by simp
  also have "\<dots> = (map docId (take k M) @ n # q) @ filter (\<lambda>c. map_of deg c = Some 1) (childrenOf M n)"
    unfolding front pushed ..
  also have "\<dots> = map docId (take (Suc k) M) @ q'"
    unfolding q' using klt nk by (simp add: take_Suc_conv_app_nth)
  finally show "map docId (take (Suc k) M) @ q'
           = map docId (filter (readyIn (docId ` set (take (Suc k) M))) M)"
    unfolding E' by simp
qed


lemma kahn_fixpoint_run:
  assumes ko: "kahnOrdered M"
  shows "kahnInv M q deg res \<Longrightarrow> res = take (length res) M \<Longrightarrow>
         map docId res @ q = map docId (filter (readyIn (docId ` set res)) M) \<Longrightarrow>
         kahnLoop (graphOf M) q deg res = M"
proof (induction "graphOf M" q deg res rule: kahnLoop.induct)
  case (1 deg result)
  note d = kahnOrderedD(1)[OF ko]
  let ?k = "length result"
  have res: "result = take ?k M" by (rule "1.prems"(2))
  have "\<not> ?k < length M"
  proof
    assume klt: "?k < length M"
    have "readyIn (docId ` set (take ?k M)) (M ! ?k)" by (rule kahnOrderedD(2)[OF ko klt])
    then have "M ! ?k \<in> set (filter (readyIn (docId ` set result)) M)"
      using klt res by simp
    then have "docId (M ! ?k) \<in> set (map docId (filter (readyIn (docId ` set result)) M))"
      by (metis image_eqI list.set_map)
    with "1.prems"(3) have "docId (M ! ?k) \<in> set (map docId result)" by simp
    then obtain x where x: "x \<in> set result" "docId x = docId (M ! ?k)" by auto
    from x(1) have "x \<in> set (take ?k M)" using res by metis
    then obtain i where "i < length (take ?k M)" "take ?k M ! i = x"
      by (auto simp: in_set_conv_nth)
    with x(2) have i: "i < ?k" "docId (M ! i) = docId (M ! ?k)" by simp_all
    then have "map docId M ! i = map docId M ! ?k" using klt by simp
    moreover have "(map docId M ! i = map docId M ! ?k) = (i = ?k)"
      by (rule nth_eq_iff_index_eq[OF d]) (use i klt in simp_all)
    ultimately show False using i(1) by simp
  qed
  then have "take ?k M = M" by simp
  with res show ?case by simp
next
  case (2 nodeId queue deg result)
  note d = kahnOrderedD(1)[OF ko]
  let ?k = "length result"
  have res: "result = take ?k M" by (rule "2.prems"(2))
  have "length result = length (take ?k M)" using res by (rule arg_cong)
  then have kle: "?k \<le> length M" by simp
  have inv: "kahnInv M (nodeId # queue) deg (take ?k M)" using "2.prems"(1) res by simp
  have front: "map docId (take ?k M) @ nodeId # queue
                 = map docId (filter (readyIn (docId ` set (take ?k M))) M)"
    using "2.prems"(3) res by simp
  obtain deg' queue' where red: "reduceChildren (childrenOf M nodeId) deg queue = (deg', queue')"
    by (cases "reduceChildren (childrenOf M nodeId) deg queue") auto
  note step = kahn_fixpoint_step[OF ko inv kle front red]
  let ?w = "M ! ?k"
  have w: "?w \<in> set M" "docId ?w = nodeId" using step(1,2) by simp_all
  have look: "map_of (workOrders (graphOf M)) nodeId = Some ?w"
    using graphOf_lookup[OF d w(1)] w(2) by simp
  have nb: "neighborsOf (adjacencyList (graphOf M)) nodeId = childrenOf M nodeId"
    using graphOf_neighbors[OF d w(1)] w(2) by simp
  have res': "result @ [?w] = take (Suc ?k) M"
    using res step(1) by (metis take_Suc_conv_app_nth)
  have inv': "kahnInv M queue' deg' (result @ [?w])"
    by (rule kahnInv_step[OF d "2.prems"(1) red w])
  have len': "result @ [?w] = take (length (result @ [?w])) M"
    by (simp only: length_append_singleton) (rule res')
  have front': "map docId (result @ [?w]) @ queue'
                  = map docId (filter (readyIn (docId ` set (result @ [?w]))) M)"
    unfolding res' by (rule step(3))
  have "kahnLoop (graphOf M) (nodeId # queue) deg result
          = kahnLoop (graphOf M) queue' deg' (result @ [?w])"
    by (simp add: look nb red)
  moreover have "kahnLoop (graphOf M) queue' deg' (result @ [?w]) = M"
    by (rule "2.hyps"[OF _ _ _ inv' len' front']) (simp_all add: look nb red)
  ultimately show ?case by simp
qed

text \<open>Sorting a list that is in emission order returns the list.\<close>

lemma topologicalSort_fixpoint:
  assumes ko: "kahnOrdered M" and hc: "hasCycles (graphOf M) = Some False"
  shows "topologicalSort (graphOf M) = Inr M"
proof -
  note d = kahnOrderedD(1)[OF ko]
  let ?q = "map fst (filter (\<lambda>entry. snd entry = 0) (inDegree (graphOf M)))"
  have front: "map docId [] @ ?q = map docId (filter (readyIn (docId ` set [])) M)"
  proof -
    have "readyIn {} = (\<lambda>w. dependsOnWorkOrderIds w = [])"
      by (auto simp: readyIn_empty fun_eq_iff)
    then show ?thesis unfolding seed_queue by simp
  qed
  have "kahnLoop (graphOf M) ?q (inDegree (graphOf M)) [] = M"
    by (rule kahn_fixpoint_run[OF ko kahnInv_initial[OF d] _ front]) simp
  moreover have "length (workOrders (graphOf M)) = length M" by (simp add: graphOf_def)
  ultimately show ?thesis using hc by (simp add: topologicalSort_def Let_def)
qed

subsection \<open>C8: a second reflow changes nothing\<close>

lemma rescheduled_lists:
  "list_all2 rescheduled L U \<Longrightarrow>
   map docId U = map docId L
   \<and> map dependsOnWorkOrderIds U = map dependsOnWorkOrderIds L"
  by (induction rule: list_all2_induct) (simp_all add: rescheduled_fields)

lemma rescheduled_members:
  "list_all2 rescheduled L U \<Longrightarrow>
   (\<forall>u \<in> set U. \<exists>w \<in> set L. rescheduled w u) \<and> (\<forall>w \<in> set L. \<exists>u \<in> set U. rescheduled w u)"
  by (induction rule: list_all2_induct) auto

lemma readyIn_cong:
  "dependsOnWorkOrderIds a = dependsOnWorkOrderIds b \<Longrightarrow> readyIn E a = readyIn E b"
  by (simp add: readyIn_def remaining_def)

lemma kahnOrdered_cong:
  assumes ids: "map docId U = map docId L"
    and deps: "map dependsOnWorkOrderIds U = map dependsOnWorkOrderIds L"
    and ko: "kahnOrdered L"
  shows "kahnOrdered U"
proof -
  have len: "length U = length L" using ids by (metis length_map)
  have dep: "dependsOnWorkOrderIds (U ! i) = dependsOnWorkOrderIds (L ! i)" if "i < length L" for i
    using deps that len by (metis nth_map)
  have tk: "docId ` set (take k U) = docId ` set (take k L)" for k
  proof -
    have "map docId (take k U) = map docId (take k L)" using ids by (metis take_map)
    then show ?thesis by (metis list.set_map)
  qed
  have rd: "readyIn E (U ! i) = readyIn E (L ! i)" if "i < length L" for i E
    by (rule readyIn_cong[OF dep[OF that]])
  show ?thesis unfolding kahnOrdered_def
  proof (intro conjI allI impI)
    show "distinct (map docId U)" using kahnOrderedD(1)[OF ko] ids by simp
  next
    fix i assume "i < length U"
    then have i: "i < length L" using len by simp
    show "readyIn (docId ` set (take i U)) (U ! i)"
      using kahnOrderedD(2)[OF ko i] by (simp add: tk rd[OF i])
  next
    fix k assume "k \<le> length U"
    then have k: "k \<le> length L" using len by simp
    from kahnOrderedD(3)[OF ko k]
    show "sorted_wrt (\<lambda>a b. readyIn (docId ` set (take k U)) b
                              \<longrightarrow> readyIn (docId ` set (take k U)) a) U"
      unfolding sorted_wrt_iff_nth_less tk len using rd by auto
  qed
qed

lemma resolveParentEndTimes_cong:
  assumes same: "map docId ps2 = map docId ps1"
    and sub: "docId ` set ps1 \<subseteq> docId ` set updated"
  shows "resolveParentEndTimes updated ps2 = resolveParentEndTimes updated ps1"
proof -
  define g where "g k = (case find (\<lambda>wo. docId wo = k) updated of
                           Some u \<Rightarrow> endDate u | None \<Rightarrow> 0)" for k
  have at: "(case find (\<lambda>wo. docId wo = docId p) updated of
               Some u \<Rightarrow> endDate u | None \<Rightarrow> endDate p) = g (docId p)"
    if "docId p \<in> docId ` set updated" for p :: WorkOrderDocument
  proof (cases "find (\<lambda>wo. docId wo = docId p) updated")
    case None
    with that show ?thesis by (auto simp: find_None_iff)
  next
    case (Some u)
    then show ?thesis by (simp add: g_def)
  qed
  have sub2: "docId ` set ps2 \<subseteq> docId ` set updated"
  proof -
    have "docId ` set ps2 = docId ` set ps1" using same by (metis list.set_map)
    with sub show ?thesis by simp
  qed
  have "map (\<lambda>p. case find (\<lambda>wo. docId wo = docId p) updated of
                   Some u \<Rightarrow> endDate u | None \<Rightarrow> endDate p) ps = map g (map docId ps)"
    if "docId ` set ps \<subseteq> docId ` set updated" for ps :: "WorkOrderDocument list"
    using that at by (auto simp: image_subset_iff)
  from this[OF sub] this[OF sub2] same show ?thesis
    by (simp add: resolveParentEndTimes_def Let_def)
qed

text \<open>The scheduling loop run again on its own output, from the same state and with
  a graph that names the same parents, returns that output and adds no change.\<close>

lemma scheduleLoop_replay:
  assumes par: "\<And>w. w \<in> set nodes \<Longrightarrow>
      \<exists>ps1 ps2. getParents dag1 (docId w) = Inr ps1 \<and> getParents dag2 (docId w) = Inr ps2
        \<and> map docId ps2 = map docId ps1
        \<and> docId ` set ps1 \<subseteq> set (dependsOnWorkOrderIds w)"
  shows "scheduleLoop now dag1 wcMap ws (updated, chs, avail) = Inr (updated @ us, chs', avail') \<Longrightarrow>
         set ws \<subseteq> set nodes \<Longrightarrow>
         (\<forall>i < length ws. set (dependsOnWorkOrderIds (ws ! i))
                            \<subseteq> docId ` (set updated \<union> set (take i ws))) \<Longrightarrow>
         scheduleLoop now dag2 wcMap us (updated, chs2, avail) = Inr (updated @ us, chs2, avail')"
proof (induction ws arbitrary: updated chs avail us)
  case Nil
  then show ?case by simp
next
  case (Cons w rest)
  have sub: "set rest \<subseteq> set nodes" using Cons.prems(2) by simp
  have topo: "\<forall>i < length rest. set (dependsOnWorkOrderIds (rest ! i))
                \<subseteq> docId ` (set (updated @ [x]) \<union> set (take i rest))"
    if x: "docId x = docId w" for x
  proof (intro allI impI)
    fix i assume "i < length rest"
    then have "Suc i < length (w # rest)" by simp
    with Cons.prems(3)
    have "set (dependsOnWorkOrderIds ((w # rest) ! Suc i))
            \<subseteq> docId ` (set updated \<union> set (take (Suc i) (w # rest)))" by blast
    then show "set (dependsOnWorkOrderIds (rest ! i))
                 \<subseteq> docId ` (set (updated @ [x]) \<union> set (take i rest))"
      using x by auto
  qed
  show ?case
  proof (cases "isMaintenance w")
    case True
    with Cons.prems(1)
    have run: "scheduleLoop now dag1 wcMap rest (updated @ [w], chs, avail)
                 = Inr (updated @ us, chs', avail')" by simp
    from scheduleLoop_shape[OF run] obtain us' where "updated @ us = (updated @ [w]) @ us'"
      by blast
    then have us: "us = w # us'" by simp
    from run us
    have run': "scheduleLoop now dag1 wcMap rest (updated @ [w], chs, avail)
                  = Inr ((updated @ [w]) @ us', chs', avail')" by simp
    from Cons.IH[OF run' sub topo]
    have "scheduleLoop now dag2 wcMap us' (updated @ [w], chs2, avail)
            = Inr ((updated @ [w]) @ us', chs2, avail')" by simp
    then show ?thesis using True us by simp
  next
    case False
    from scheduleLoop_step[OF Cons.prems(1) False]
    obtain workCenter parents newStart newEnd where
      wc: "map_of wcMap (workCenterId w) = Some workCenter"
      and par1: "getParents dag1 (docId w) = Inr parents"
      and start: "getEarliestStartTime (resolveParentEndTimes updated parents)
             (availableFrom now avail workCenter) (shifts workCenter) = Inr newStart"
      and fin: "calculateEndDate newStart (durationMinutes w) (shifts workCenter)
             (maintenanceWindows workCenter) = Inr newEnd"
      and run: "scheduleLoop now dag1 wcMap rest
             (updated @ [w\<lparr>startDate := newStart, endDate := newEnd\<rparr>],
              chs @ changeEntries w newStart newEnd,
              AList.update (wcDocId workCenter) newEnd avail) = Inr (updated @ us, chs', avail')"
      by blast
    let ?new = "w\<lparr>startDate := newStart, endDate := newEnd\<rparr>"
    from scheduleLoop_shape[OF run] obtain us' where "updated @ us = (updated @ [?new]) @ us'"
      by blast
    then have us: "us = ?new # us'" by simp
    from run us
    have run': "scheduleLoop now dag1 wcMap rest
             (updated @ [?new], chs @ changeEntries w newStart newEnd,
              AList.update (wcDocId workCenter) newEnd avail)
               = Inr ((updated @ [?new]) @ us', chs', avail')" by simp
    have "docId ?new = docId w" by simp
    from Cons.IH[OF run' sub topo[OF this]]
    have again: "scheduleLoop now dag2 wcMap us'
                   (updated @ [?new], chs2, AList.update (wcDocId workCenter) newEnd avail)
                     = Inr ((updated @ [?new]) @ us', chs2, avail')" .
    from par[of w] Cons.prems(2) par1 obtain ps2 where
      par2: "getParents dag2 (docId w) = Inr ps2"
      and same: "map docId ps2 = map docId parents"
      and named: "docId ` set parents \<subseteq> set (dependsOnWorkOrderIds w)"
      by auto
    from Cons.prems(3)[rule_format, of 0]
    have "set (dependsOnWorkOrderIds w) \<subseteq> docId ` set updated" by simp
    with named have "docId ` set parents \<subseteq> docId ` set updated" by simp
    from resolveParentEndTimes_cong[OF same this] start
    have start2: "getEarliestStartTime (resolveParentEndTimes updated ps2)
             (availableFrom now avail workCenter) (shifts workCenter) = Inr newStart" by simp
    have none: "changeEntries ?new newStart newEnd = []" by (simp add: changeEntries_def)
    have same_order: "?new\<lparr>startDate := newStart, endDate := newEnd\<rparr> = ?new" by simp
    have "scheduleLoop now dag2 wcMap (?new # us') (updated, chs2, avail)
            = scheduleLoop now dag2 wcMap us'
                (updated @ [?new], chs2, AList.update (wcDocId workCenter) newEnd avail)"
      using False wc par2 start2 fin none by simp
    with again us show ?thesis by simp
  qed
qed

lemma parents_ids:
  assumes d: "distinct (map docId wos)"
  shows "map docId (List.map_filter (map_of (workOrders (graphOf wos))) ds)
           = filter (\<lambda>k. k \<in> docId ` set wos) ds"
proof (induction ds)
  case Nil
  then show ?case by (simp add: List.map_filter_simps)
next
  case (Cons k ds)
  show ?case
  proof (cases "k \<in> docId ` set wos")
    case True
    then obtain w where w: "w \<in> set wos" "docId w = k" by auto
    from graphOf_lookup[OF d w(1)] w(2)
    have "map_of (workOrders (graphOf wos)) k = Some w" by simp
    with Cons True w(2) show ?thesis by (simp add: List.map_filter_simps)
  next
    case False
    from graphOf_lookup_None[OF this] Cons False show ?thesis
      by (simp add: List.map_filter_simps)
  qed
qed

lemma getParents_graphOf:
  assumes d: "distinct (map docId wos)" and w: "w \<in> set wos"
  shows "\<exists>ps. getParents (graphOf wos) (docId w) = Inr ps
           \<and> map docId ps = filter (\<lambda>k. k \<in> docId ` set wos) (dependsOnWorkOrderIds w)"
  using graphOf_lookup[OF d w] parents_ids[OF d] by (simp add: getParents_def)

text \<open>
  C8 (as stated, refuted). In \<open>repeatedIdLate\<close> the id wo-x is used twice. The first
  reflow is valid and returns four work orders, with wo-x on the Thursday at
  09:00. The reflow of these four, with the same clock readings, records two
  changes and moves wo-x to the Wednesday at 11:00: the edge of the first wo-x
  is gone, and wo-x is now sorted after its parent wo-p.
\<close>

theorem C8_repeated_id_counterexample:
  "isValid (reflow earlyClock repeatedIdLate)
   \<and> length (updatedWorkOrders (reflow earlyClock repeatedIdLate)) = 4
   \<and> docId (updatedWorkOrders (reflow earlyClock repeatedIdLate) ! 2) = ''wo-x''
   \<and> startDate (updatedWorkOrders (reflow earlyClock repeatedIdLate) ! 2)
       = wednesday + DAY + 9 * HOUR
   \<and> length (changes (reflow earlyClock
        (repeatedIdLate\<lparr>inWorkOrders := updatedWorkOrders (reflow earlyClock repeatedIdLate)\<rparr>)))
       = 2
   \<and> docId (updatedWorkOrders (reflow earlyClock
        (repeatedIdLate\<lparr>inWorkOrders := updatedWorkOrders (reflow earlyClock repeatedIdLate)\<rparr>))
        ! 3) = ''wo-x''
   \<and> startDate (updatedWorkOrders (reflow earlyClock
        (repeatedIdLate\<lparr>inWorkOrders := updatedWorkOrders (reflow earlyClock repeatedIdLate)\<rparr>))
        ! 3) = wednesday + 11 * HOUR"
  by code_simp

text \<open>The reflow of the work orders that a reflow returned.\<close>

lemma reflow_replay:
  assumes ids: "distinct (map docId (inWorkOrders input))"
    and ok: "updatedWorkOrders (reflow clock input) \<noteq> []"
  shows "reflow clock (input\<lparr>inWorkOrders := updatedWorkOrders (reflow clock input)\<rparr>)
           = (reflow clock input)\<lparr>changes := []\<rparr>"
proof -
  let ?U = "updatedWorkOrders (reflow clock input)"
  let ?wos = "inWorkOrders input"
  let ?wcs = "inWorkCenters input"
  from reflow_success[OF ok] obtain dag L avail chs avail' vs where
    built: "buildGraph ?wos = Inr dag"
    and hc: "hasCycles dag = Some False"
    and sorted: "topologicalSort dag = Inr L"
    and init: "initAvailability clock 0 ?wcs [] = Inr avail"
    and run: "scheduleLoop (clock (length ?wcs)) dag (mkWorkCenterMap ?wcs) L ([], [], avail)
                = Inr (?U, chs, avail')"
    and val: "validate ?U ?wcs = Inr vs"
    and res: "reflow clock input
                = \<lparr>updatedWorkOrders = ?U, changes = chs,
                   isValid = (vs = []), violations = map ConstraintMessage vs\<rparr>"
    by blast
  note g = buildGraph_Inr[OF ids built]
  note t = topologicalSort_Inr[OF ids sorted[unfolded g(1)]]
  have rel: "list_all2 rescheduled L ?U" using scheduleLoop_shape[OF run] by simp
  note same = rescheduled_lists[OF rel]
  have setL: "set L = set ?wos" using t(1) by (metis mset_eq_setD)
  have idsU: "docId ` set ?U = docId ` set ?wos"
  proof -
    have "set (map docId ?U) = set (map docId L)" using same by simp
    then show ?thesis using setL by simp
  qed
  have fwd: "\<exists>w \<in> set ?wos. rescheduled w u" if "u \<in> set ?U" for u
    using rescheduled_members[OF rel] that setL by blast
  have bwd: "\<exists>u \<in> set ?U. rescheduled w u" if "w \<in> set ?wos" for w
    using rescheduled_members[OF rel] that setL by blast
  have ko: "kahnOrdered ?U"
    using kahnOrdered_cong[OF _ _ topologicalSort_kahnOrdered[OF ids sorted[unfolded g(1)]]] same
    by blast
  note dU = kahnOrderedD(1)[OF ko]
  have pU: "parentsExist ?U"
    unfolding parentsExist_iff idsU
  proof
    fix u assume "u \<in> set ?U"
    from fwd[OF this] obtain w where w: "w \<in> set ?wos" "rescheduled w u" by blast
    from g(2) w(1) have "set (dependsOnWorkOrderIds w) \<subseteq> docId ` set ?wos"
      by (simp add: parentsExist_iff)
    with rescheduled_fields(2)[OF w(2)]
    show "set (dependsOnWorkOrderIds u) \<subseteq> docId ` set ?wos" by simp
  qed
  have edges: "dependencyEdges ?U = dependencyEdges ?wos"
  proof (rule set_eqI, clarify)
    fix p c
    show "(p, c) \<in> dependencyEdges ?U \<longleftrightarrow> (p, c) \<in> dependencyEdges ?wos"
    proof
      assume "(p, c) \<in> dependencyEdges ?U"
      then obtain u where u: "u \<in> set ?U" "docId u = c" "p \<in> set (dependsOnWorkOrderIds u)"
        unfolding dependencyEdges_member by blast
      from fwd[OF u(1)] obtain w where w: "w \<in> set ?wos" "rescheduled w u" by blast
      from rescheduled_fields(1,2)[OF w(2)] u(2,3)
      have "docId w = c" "p \<in> set (dependsOnWorkOrderIds w)" by simp_all
      with w(1) show "(p, c) \<in> dependencyEdges ?wos" unfolding dependencyEdges_member by blast
    next
      assume "(p, c) \<in> dependencyEdges ?wos"
      then obtain w where w: "w \<in> set ?wos" "docId w = c" "p \<in> set (dependsOnWorkOrderIds w)"
        unfolding dependencyEdges_member by blast
      from bwd[OF w(1)] obtain u where u: "u \<in> set ?U" "rescheduled w u" by blast
      from rescheduled_fields(1,2)[OF u(2)] w(2,3)
      have "docId u = c" "p \<in> set (dependsOnWorkOrderIds u)" by simp_all
      with u(1) show "(p, c) \<in> dependencyEdges ?U" unfolding dependencyEdges_member by blast
    qed
  qed
  have "acyclic (dependencyEdges ?wos)"
    using hasCycles_returns[OF ids g(2)] hc g(1) by simp
  then have hcU: "hasCycles (graphOf ?U) = Some False"
    using hasCycles_returns[OF dU pU] edges by simp
  have bU: "buildGraph ?U = Inr (graphOf ?U)" by (rule buildGraph_closed_form(1)[OF dU pU])
  have sU: "topologicalSort (graphOf ?U) = Inr ?U" by (rule topologicalSort_fixpoint[OF ko hcU])
  have par: "\<exists>ps1 ps2. getParents (graphOf ?wos) (docId w) = Inr ps1
               \<and> getParents (graphOf ?U) (docId w) = Inr ps2
               \<and> map docId ps2 = map docId ps1
               \<and> docId ` set ps1 \<subseteq> set (dependsOnWorkOrderIds w)"
    if w: "w \<in> set ?wos" for w
  proof -
    from bwd[OF w] obtain u where u: "u \<in> set ?U" "rescheduled w u" by blast
    from getParents_graphOf[OF ids w] obtain ps1 where
      ps1: "getParents (graphOf ?wos) (docId w) = Inr ps1"
        "map docId ps1 = filter (\<lambda>k. k \<in> docId ` set ?wos) (dependsOnWorkOrderIds w)"
      by blast
    from getParents_graphOf[OF dU u(1)] obtain ps2 where
      ps2: "getParents (graphOf ?U) (docId u) = Inr ps2"
        "map docId ps2 = filter (\<lambda>k. k \<in> docId ` set ?U) (dependsOnWorkOrderIds u)"
      by blast
    have "set (map docId ps1) \<subseteq> set (dependsOnWorkOrderIds w)" unfolding ps1(2) by auto
    then have "docId ` set ps1 \<subseteq> set (dependsOnWorkOrderIds w)" by simp
    moreover have "map docId ps2 = map docId ps1"
      unfolding ps1(2) ps2(2) idsU rescheduled_fields(2)[OF u(2)] ..
    ultimately show ?thesis using ps1(1) ps2(1) rescheduled_fields(1)[OF u(2)] by simp
  qed
  have topo: "\<forall>i < length L. set (dependsOnWorkOrderIds (L ! i))
                \<subseteq> docId ` (set [] \<union> set (take i L))"
    using t(3) by simp
  have run1: "scheduleLoop (clock (length ?wcs)) (graphOf ?wos) (mkWorkCenterMap ?wcs) L
                ([], [], avail) = Inr ([] @ ?U, chs, avail')"
    using run g(1) by simp
  have "scheduleLoop (clock (length ?wcs)) (graphOf ?U) (mkWorkCenterMap ?wcs) ?U
          ([], [], avail) = Inr ([] @ ?U, [], avail')"
  proof (rule scheduleLoop_replay[where nodes = "?wos", OF _ run1 _ topo])
    show "set L \<subseteq> set ?wos" using setL by simp
  qed (rule par)
  then have run2: "scheduleLoop (clock (length ?wcs)) (graphOf ?U) (mkWorkCenterMap ?wcs) ?U
          ([], [], avail) = Inr (?U, [], avail')" by simp
  have "reflowBody clock (input\<lparr>inWorkOrders := ?U\<rparr>)
          = Inr \<lparr>updatedWorkOrders = ?U, changes = [],
                 isValid = (vs = []), violations = map ConstraintMessage vs\<rparr>"
    by (simp add: reflowBody_def bU hcU sU init run2 val)
  then have "reflow clock (input\<lparr>inWorkOrders := ?U\<rparr>)
          = \<lparr>updatedWorkOrders = ?U, changes = [],
             isValid = (vs = []), violations = map ConstraintMessage vs\<rparr>"
    by (simp add: reflow_def)
  also have "\<dots> = (reflow clock input)\<lparr>changes := []\<rparr>" by (subst (2) res) simp
  finally show ?thesis .
qed

text \<open>
  C8 (amended). Let the work orders of the input have pairwise different ids, and
  let \<^verbatim>\<open>reflow\<close> succeed (its result is valid or has work orders). Then \<^verbatim>\<open>reflow\<close>,
  with the same clock readings and the same work centers, on the
  \<^verbatim>\<open>updatedWorkOrders\<close> it returned, returns the same result with an empty
  \<^verbatim>\<open>changes\<close> list: the same work orders in the same order, each with its start
  and end instants, and the same validity and violations.
\<close>

theorem C8_reflow_is_idempotent:
  assumes ids: "distinct (map docId (inWorkOrders input))"
    and success: "isValid (reflow clock input) \<or> updatedWorkOrders (reflow clock input) \<noteq> []"
  shows "reflow clock (input\<lparr>inWorkOrders := updatedWorkOrders (reflow clock input)\<rparr>)
           = (reflow clock input)\<lparr>changes := []\<rparr>"
proof (cases "updatedWorkOrders (reflow clock input) = []")
  case True
  with success have "isValid (reflow clock input)" by simp
  note none = reflow_valid_empty[OF ids this True]
  have "input\<lparr>inWorkOrders := updatedWorkOrders (reflow clock input)\<rparr> = input"
    using True none(1) by simp
  moreover have "(reflow clock input)\<lparr>changes := changes (reflow clock input)\<rparr>
                   = reflow clock input" by simp
  ultimately show ?thesis using none(2) by simp
next
  case False
  then show ?thesis by (rule reflow_replay[OF ids])
qed

theorem C8_reflow_is_idempotent_witness:
  "distinct (map docId (inWorkOrders chainInput))
   \<and> updatedWorkOrders (reflow (\<lambda>i. wednesday + 9 * HOUR) chainInput) \<noteq> []
   \<and> changes (reflow (\<lambda>i. wednesday + 9 * HOUR) chainInput) \<noteq> []
   \<and> reflow (\<lambda>i. wednesday + 9 * HOUR)
       (chainInput\<lparr>inWorkOrders :=
          updatedWorkOrders (reflow (\<lambda>i. wednesday + 9 * HOUR) chainInput)\<rparr>)
       = (reflow (\<lambda>i. wednesday + 9 * HOUR) chainInput)\<lparr>changes := []\<rparr>"
proof -
  have ids: "distinct (map docId (inWorkOrders chainInput))" by code_simp
  have ok: "updatedWorkOrders (reflow (\<lambda>i. wednesday + 9 * HOUR) chainInput) \<noteq> []"
    by code_simp
  have moved: "changes (reflow (\<lambda>i. wednesday + 9 * HOUR) chainInput) \<noteq> []" by code_simp
  from C8_reflow_is_idempotent[OF ids disjI2[OF ok]] ids ok moved show ?thesis by simp
qed

end
